theory Spec2Isabelle
  imports Complex_Main "HOL-Library.Multiset"
begin

section \<open>Machine arithmetic of the Go runtime\<close>

subsection \<open>Fixed-width integers\<close>

text \<open>
  Go's \<open>int32\<close> and \<open>int64\<close> are modelled as \<open>int\<close> with the two's complement
  wrap-around written out; \<open>int\<close> and \<open>len\<close> are 64 bits wide on the build target
  (GOARCH=amd64).
\<close>

definition wrap32 :: "int \<Rightarrow> int" where
  "wrap32 x = (x + 2 ^ 31) mod 2 ^ 32 - 2 ^ 31"

definition wrap64 :: "int \<Rightarrow> int" where
  "wrap64 x = (x + 2 ^ 63) mod 2 ^ 64 - 2 ^ 63"

text \<open>Integer division and remainder truncate towards zero in Go.\<close>

definition go_quot :: "int \<Rightarrow> int \<Rightarrow> int" where
  "go_quot a b = sgn a * sgn b * (\<bar>a\<bar> div \<bar>b\<bar>)"

definition go_rem :: "int \<Rightarrow> int \<Rightarrow> int" where
  "go_rem a b = a - b * go_quot a b"

subsection \<open>float64\<close>

text \<open>
  A finite \<open>float64\<close> is the real number it denotes. Every arithmetic operation computes
  the exact result and rounds it to the nearest number with a 53 bit significand, ties to the
  even significand (IEEE 754 binary64, the only rounding mode of Go). \<open>rnd_pos\<close> rounds a
  positive number: in the binade \<open>[2^52, 2^53)\<close> the representable numbers are the
  integers, and the other binades are scaled copies of it. Overflow to infinity (above
  \<open>2^1024\<close>) and gradual underflow (below \<open>2^-1022\<close>) are outside the model; no quantity
  of the program gets near either.
\<close>

definition round_half_even :: "real \<Rightarrow> int" where
  "round_half_even x =
     (let f = \<lfloor>x\<rfloor>; r = x - of_int f
      in if r < 1 / 2 then f else if 1 / 2 < r then f + 1
         else if even f then f else f + 1)"

function rnd_pos :: "real \<Rightarrow> real" where
  "rnd_pos x =
     (if x \<le> 0 then 0
      else if 2 ^ 53 \<le> x then 2 * rnd_pos (x / 2)
      else if x < 2 ^ 52 then rnd_pos (2 * x) / 2
      else of_int (round_half_even x))"
  by pat_completeness auto
termination
proof (relation "measure (\<lambda>x. if 2 ^ 52 \<le> x then nat \<lfloor>x\<rfloor> else 2 ^ 53 + nat \<lceil>2 ^ 52 / x\<rceil>)")
  show "wf (measure (\<lambda>x::real. if 2 ^ 52 \<le> x then nat \<lfloor>x\<rfloor> else 2 ^ 53 + nat \<lceil>2 ^ 52 / x\<rceil>))"
    by simp
next
  fix x :: real
  assume a: "\<not> x \<le> 0" "2 ^ 53 \<le> x"
  have "x / 2 \<le> x - 1" using a by simp
  then have "\<lfloor>x / 2\<rfloor> \<le> \<lfloor>x - 1\<rfloor>" by (rule floor_mono)
  then have "\<lfloor>x / 2\<rfloor> < \<lfloor>x\<rfloor>" by simp
  moreover have "0 < \<lfloor>x\<rfloor>" using a by simp
  moreover have "2 ^ 52 \<le> x / 2" "2 ^ 52 \<le> x" using a by simp_all
  ultimately show "(x / 2, x) \<in> measure (\<lambda>x. if 2 ^ 52 \<le> x then nat \<lfloor>x\<rfloor> else 2 ^ 53 + nat \<lceil>2 ^ 52 / x\<rceil>)"
    by simp
next
  fix x :: real
  assume a: "\<not> x \<le> 0" "\<not> 2 ^ 53 \<le> x" "x < 2 ^ 52"
  show "(2 * x, x) \<in> measure (\<lambda>x. if 2 ^ 52 \<le> x then nat \<lfloor>x\<rfloor> else 2 ^ 53 + nat \<lceil>2 ^ 52 / x\<rceil>)"
  proof (cases "2 ^ 52 \<le> 2 * x")
    case True
    have "\<lfloor>2 * x\<rfloor> < 2 ^ 53" using a by (simp add: floor_less_iff)
    moreover have "0 \<le> \<lfloor>2 * x\<rfloor>" using a by simp
    ultimately have "nat \<lfloor>2 * x\<rfloor> < nat (2 ^ 53)"
      by (simp only: nat_mono_iff zero_less_power zero_less_numeral)
    then have "nat \<lfloor>2 * x\<rfloor> < 2 ^ 53" by simp
    then show ?thesis using True a by simp
  next
    case False
    define t where "t = 2 ^ 52 / x"
    have t2: "2 < t" using False a by (simp add: t_def field_simps)
    have "t / 2 \<le> t - 1" using t2 by simp
    then have "\<lceil>t / 2\<rceil> \<le> \<lceil>t - 1\<rceil>" by (rule ceiling_mono)
    then have "\<lceil>t / 2\<rceil> < \<lceil>t\<rceil>" by simp
    moreover have "0 < \<lceil>t\<rceil>" using t2 by simp
    moreover have "2 ^ 52 / (2 * x) = t / 2" by (simp add: t_def)
    ultimately show ?thesis using False a by (simp add: t_def)
  qed
qed

declare rnd_pos.simps [simp del]

definition float64 :: "real \<Rightarrow> real" where
  "float64 x = (if x < 0 then - rnd_pos (- x) else rnd_pos x)"

text \<open>The conversion \<open>float64(n)\<close> of an integer, and the operators \<open>/\<close>, \<open>*\<close>, \<open>+\<close>.\<close>

definition float64_of_int :: "int \<Rightarrow> real" where
  "float64_of_int n = float64 (of_int n)"

definition fdiv :: "real \<Rightarrow> real \<Rightarrow> real" where
  "fdiv a b = float64 (a / b)"

definition fmul :: "real \<Rightarrow> real \<Rightarrow> real" where
  "fmul a b = float64 (a * b)"

definition fadd :: "real \<Rightarrow> real \<Rightarrow> real" where
  "fadd a b = float64 (a + b)"

text \<open>\<open>math.Ceil\<close> is exact; the conversion \<open>int(f)\<close> drops the fraction.\<close>

definition Ceil :: "real \<Rightarrow> real" where
  "Ceil f = of_int \<lceil>f\<rceil>"

definition int_of_float64 :: "real \<Rightarrow> int" where
  "int_of_float64 f = (if 0 \<le> f then \<lfloor>f\<rfloor> else \<lceil>f\<rceil>)"

text \<open>
  \<open>time.Duration\<close> is a count of nanoseconds; \<open>Seconds\<close> splits it into whole seconds and
  the remainder and adds the two as \<open>float64\<close>.
\<close>

definition Duration_Seconds :: "int \<Rightarrow> real" where
  "Duration_Seconds d =
     (let sec = go_quot d 1000000000; nsec = go_rem d 1000000000
      in fadd (float64_of_int sec) (fdiv (float64_of_int nsec) 1000000000))"

text \<open>\<open>t.Sub(u)\<close> saturates at the ends of the \<open>Duration\<close> range.\<close>

definition time_Sub :: "int \<Rightarrow> int \<Rightarrow> int" where
  "time_Sub t u = max (- (2 ^ 63)) (min (2 ^ 63 - 1) (t - u))"

section \<open>Metrics (metrics.go)\<close>

definition percentile :: "int list \<Rightarrow> real \<Rightarrow> real" where
  "percentile vals p =
     (if length vals = 0 then 0
      else
        let idx = int_of_float64 (Ceil (fmul (fdiv p 100) (float64_of_int (int (length vals))))) - 1;
            idx = (if idx < 0 then 0 else idx);
            idx = (if int (length vals) \<le> idx then int (length vals) - 1 else idx)
        in float64_of_int (vals ! nat idx))"

definition computeMetrics ::
  "int list \<Rightarrow> int \<Rightarrow> real \<times> real \<times> real \<times> real \<times> real \<times> real" where
  "computeMetrics durs successCount =
     (if successCount = 0 then (0, 0, 0, 0, 0, 0)
      else
        let vals = filter (\<lambda>d. \<not> d < 0) durs
        in if length vals = 0 then (0, 0, 0, 0, 0, 0)
           else
             let vals = sort vals;
                 sum = fold (\<lambda>v s. wrap64 (s + v)) vals 0;
                 avg = fdiv (float64_of_int sum) (float64_of_int (int (length vals)));
                 mx = float64_of_int (vals ! (length vals - 1))
             in (avg, percentile vals 50, percentile vals 90, percentile vals 95,
                 percentile vals 99, mx))"

definition percentileSeries ::
  "int list list \<Rightarrow> real list \<times> real list \<times> real list \<times> real list" where
  "percentileSeries perSec =
     (let series = (\<lambda>p. map (\<lambda>b. if length b = 0 then 0 else percentile (sort b) p) perSec)
      in (series 50, series 90, series 95, series 99))"

definition countsToFloat64 :: "int list \<Rightarrow> real list" where
  "countsToFloat64 counts = (if length counts = 0 then [] else map float64_of_int counts)"

record Result =
  Config :: string
  Targets :: string
  Mode :: string
  Concurrency :: int
  Total :: int
  Success :: int
  Errors :: int
  Duration :: int
  RPS :: real
  AvgMs :: real
  P50Ms :: real
  P90Ms :: real
  P95Ms :: real
  P99Ms :: real
  MaxMs :: real
  SeriesSec :: "int list"
  SeriesRPS :: "real list"
  SeriesErr :: "real list"
  SeriesP50 :: "real list"
  SeriesP90 :: "real list"
  SeriesP95 :: "real list"
  SeriesP99 :: "real list"
  SeriesStart :: int

text \<open>The zero value \<open>Result{}\<close>.\<close>

definition Result_zero :: Result where
  "Result_zero =
     \<lparr>Config = [], Targets = [], Mode = [], Concurrency = 0, Total = 0, Success = 0, Errors = 0,
      Duration = 0, RPS = 0, AvgMs = 0, P50Ms = 0, P90Ms = 0, P95Ms = 0, P99Ms = 0, MaxMs = 0,
      SeriesSec = [], SeriesRPS = [], SeriesErr = [], SeriesP50 = [], SeriesP90 = [],
      SeriesP95 = [], SeriesP99 = [], SeriesStart = 0\<rparr>"

definition applyMetrics :: "Result \<Rightarrow> int list \<Rightarrow> Result" where
  "applyMetrics r durs =
     (case computeMetrics durs (Success r) of
        (avg, p50, p90, p95, p99, mx) \<Rightarrow>
          let r = r\<lparr>AvgMs := avg, P50Ms := p50, P90Ms := p90, P95Ms := p95, P99Ms := p99,
                    MaxMs := mx\<rparr>
          in if 0 < Duration r
             then r\<lparr>RPS := fdiv (float64_of_int (Success r)) (Duration_Seconds (Duration r))\<rparr>
             else r)"

text \<open>
  The nearest-rank index of the specification: \<open>ceil(p/100 * n) - 1\<close>, clamped into
  \<open>[0, n-1]\<close>, in exact arithmetic.
\<close>

definition nearest_rank_index :: "nat \<Rightarrow> real \<Rightarrow> int" where
  "nearest_rank_index n p = max 0 (min (int n - 1) (\<lceil>p / 100 * real n\<rceil> - 1))"

text \<open>The fixture of ten sorted samples, 1 ms to 10 ms.\<close>

definition fixture10 :: "int list" where
  "fixture10 = [1, 2, 3, 4, 5, 6, 7, 8, 9, 10]"

text \<open>Twenty-five sorted samples, 1 ms to 25 ms.\<close>

definition fixture25 :: "int list" where
  "fixture25 =
     [1, 2, 3, 4, 5, 6, 7, 8, 9, 10, 11, 12, 13, 14, 15, 16, 17, 18, 19, 20, 21, 22, 23, 24, 25]"

text \<open>The value of the local variable \<open>idx\<close> of \<open>percentile\<close> after both clamps.\<close>

definition percentile_idx :: "nat \<Rightarrow> real \<Rightarrow> int" where
  "percentile_idx n p =
     (let idx = int_of_float64 (Ceil (fmul (fdiv p 100) (float64_of_int (int n)))) - 1;
          idx = (if idx < 0 then 0 else idx);
          idx = (if int n \<le> idx then int n - 1 else idx)
      in idx)"

text \<open>The two clamps of \<open>percentile\<close> on an index.\<close>

definition clamp_idx :: "nat \<Rightarrow> int \<Rightarrow> int" where
  "clamp_idx n a =
     (if int n \<le> (if a < 0 then 0 else a) then int n - 1 else (if a < 0 then 0 else a))"

text \<open>A fully failed run, and a run with one failure among four successes.\<close>

definition all_failed :: "int list" where
  "all_failed = [- 1, - 1, - 1]"

definition mixed_run :: "int list" where
  "mixed_run = [12, - 1, 7, 30, 7]"

section \<open>Random source and block picker (runner.go)\<close>

text \<open>A run-time panic of the Go runtime or of a library function.\<close>

datatype panic = InvalidArgumentToIntn

text \<open>
  The generator \<open>math/rand.Rand\<close> of the standard library: the sequence of raw values it
  produces and the position reached. \<open>Intn(n)\<close> panics for \<open>n <= 0\<close> and otherwise
  returns a number in \<open>[0, n)\<close> and advances the generator.
\<close>

record rand_source =
  raw :: "nat \<Rightarrow> nat"
  pos :: nat

definition rand_Intn :: "rand_source \<Rightarrow> int \<Rightarrow> (panic + int) \<times> rand_source" where
  "rand_Intn g n =
     (if n \<le> 0 then (Inl InvalidArgumentToIntn, g)
      else (Inr (int (raw g (pos g)) mod n), g\<lparr>pos := Suc (pos g)\<rparr>))"

text \<open>
  \<open>lockedRand\<close> wraps the generator (its field \<open>r\<close>, here \<open>rsrc\<close>); the mutex
  makes each call atomic, so a call is a function of the generator's state.
\<close>

record lockedRand =
  rsrc :: rand_source

definition lockedRand_Intn :: "lockedRand \<Rightarrow> int \<Rightarrow> (panic + int) \<times> lockedRand" where
  "lockedRand_Intn lr n =
     (if n \<le> 0 then (Inr 0, lr)
      else (case rand_Intn (rsrc lr) n of (v, g) \<Rightarrow> (v, lr\<lparr>rsrc := g\<rparr>)))"

text \<open>
  \<open>blockPicker\<close>: the fields \<open>from\<close>, \<open>to\<close>, \<open>window\<close> and \<open>latest\<close> are
  \<open>int32\<close>, \<open>refresh\<close> is a \<open>Duration\<close> and \<open>lastRefresh\<close> a time, both in
  nanoseconds. The client \<open>api\<close> is represented by the answer it gives to
  \<open>GetMasterchainInfo\<close> when \<open>pick\<close> asks: an error message, or the \<open>uint32\<close>
  sequence number \<open>info.Last.Seqno\<close>.
\<close>

record blockPicker =
  mode :: string
  from' :: int
  to' :: int
  window :: int
  refresh :: int
  lastRefresh :: int
  latest :: int
  rng :: lockedRand

text \<open>
  \<open>pick\<close> returns the Go pair \<open>(seq, err)\<close> and the picker's new state; \<open>now\<close> is
  the reading of \<open>time.Now()\<close>.
\<close>

definition pick ::
  "blockPicker \<Rightarrow> int \<Rightarrow> string + nat \<Rightarrow> (panic + int \<times> string option) \<times> blockPicker" where
  "pick p now info =
     (if mode p = ''range'' then
        let span = wrap32 (to' p - from' p + 1)
        in if span \<le> 1 then (Inr (from' p, None), p)
           else (case lockedRand_Intn (rng p) span of
                   (Inl e, g) \<Rightarrow> (Inl e, p\<lparr>rng := g\<rparr>)
                 | (Inr v, g) \<Rightarrow> (Inr (wrap32 (from' p + wrap32 v), None), p\<lparr>rng := g\<rparr>))
      else
        let fetched =
              (if latest p = 0 \<or> (0 < refresh p \<and> refresh p \<le> time_Sub now (lastRefresh p))
               then (case info of
                       Inl err \<Rightarrow> Inl err
                     | Inr seqno \<Rightarrow> Inr (p\<lparr>latest := wrap32 (int seqno), lastRefresh := now\<rparr>))
               else Inr p)
        in case fetched of
             Inl err \<Rightarrow> (Inr (0, Some err), p)
           | Inr p \<Rightarrow>
               let start = wrap32 (latest p - window p + 1);
                   start = (if start < 1 then 1 else start);
                   span = wrap32 (latest p - start + 1)
               in if span \<le> 1 then (Inr (latest p, None), p)
                  else (case lockedRand_Intn (rng p) span of
                          (Inl e, g) \<Rightarrow> (Inl e, p\<lparr>rng := g\<rparr>)
                        | (Inr v, g) \<Rightarrow> (Inr (wrap32 (start + wrap32 v), None), p\<lparr>rng := g\<rparr>)))"

text \<open>
  The second half of \<open>pick\<close> on its own, the draw inside the window once the bound is
  in force, as the proofs refer to it.
\<close>

definition pick_in_window :: "blockPicker \<Rightarrow> (panic + int \<times> string option) \<times> blockPicker" where
  "pick_in_window p =
     (let start = wrap32 (latest p - window p + 1);
          start = (if start < 1 then 1 else start);
          span = wrap32 (latest p - start + 1)
      in if span \<le> 1 then (Inr (latest p, None), p)
         else (case lockedRand_Intn (rng p) span of
                 (Inl e, g) \<Rightarrow> (Inl e, p\<lparr>rng := g\<rparr>)
               | (Inr v, g) \<Rightarrow> (Inr (wrap32 (start + wrap32 v), None), p\<lparr>rng := g\<rparr>)))"

text \<open>
  \<open>newBlockPicker\<close> for a \<open>blockRange\<close> of mode \<open>last\<close> with the given window
  (\<open>count\<close>), before the first pick.
\<close>

definition newBlockPicker_last :: "int \<Rightarrow> int \<Rightarrow> lockedRand \<Rightarrow> blockPicker" where
  "newBlockPicker_last cnt refresh_ns g =
     \<lparr>mode = ''last'', from' = 0, to' = 0, window = cnt, refresh = refresh_ns,
      lastRefresh = 0, latest = 0, rng = g\<rparr>"

text \<open>A generator whose raw values are 17, 1017, 2017, ...\<close>

definition rng0 :: lockedRand where
  "rng0 = \<lparr>rsrc = \<lparr>raw = (\<lambda>i. 1000 * i + 17), pos = 0\<rparr>\<rparr>"

text \<open>A picker with window 200 whose cached bound is 1000, refreshed 1 s ago.\<close>

definition picker_1000 :: blockPicker where
  "picker_1000 = (newBlockPicker_last 200 5000000000 rng0)\<lparr>latest := 1000, lastRefresh := 0\<rparr>"

text \<open>Pickers over a degenerate span: a range of one block, and a window of one block.\<close>

definition picker_range_one :: blockPicker where
  "picker_range_one =
     \<lparr>mode = ''range'', from' = 5, to' = 5, window = 0, refresh = 0, lastRefresh = 0, latest = 0,
      rng = rng0\<rparr>"

definition picker_window_one :: blockPicker where
  "picker_window_one = (newBlockPicker_last 1 5000000000 rng0)\<lparr>latest := 1000, lastRefresh := 0\<rparr>"


text \<open>
  \<open>parseBlockRange\<close> on a specification \<open>last:N\<close>, from the \<open>int\<close> that
  \<open>strconv.Atoi\<close> returned for \<open>N\<close>: a value that is not positive is refused, any
  other is converted to \<open>int32\<close> and becomes the window (\<open>count\<close>).
\<close>

definition parseBlockRange_last :: "int \<Rightarrow> string + int" where
  "parseBlockRange_last n = (if n \<le> 0 then Inl ''invalid last:N'' else Inr (wrap32 n))"

text \<open>
  A picker with window 200 before its first pick, and a picker whose window is 0 with the
  cached bound 1000.
\<close>

definition picker_fresh :: blockPicker where
  "picker_fresh = newBlockPicker_last 200 5000000000 rng0"

definition picker_window_zero :: blockPicker where
  "picker_window_zero = (newBlockPicker_last 0 5000000000 rng0)\<lparr>latest := 1000, lastRefresh := 0\<rparr>"
section \<open>The job runners (runner.go)\<close>

record jobRun =
  result :: Result
  durations :: "int list"
  seriesSec :: "int list"
  seriesRPS :: "real list"
  seriesErr :: "real list"
  seriesP50 :: "real list"
  seriesP90 :: "real list"
  seriesP95 :: "real list"
  seriesP99 :: "real list"
  seriesStart :: int

text \<open>The zero value \<open>jobRun{}\<close>.\<close>

definition jobRun_zero :: jobRun where
  "jobRun_zero =
     \<lparr>result = Result_zero, durations = [], seriesSec = [], seriesRPS = [], seriesErr = [],
      seriesP50 = [], seriesP90 = [], seriesP95 = [], seriesP99 = [], seriesStart = 0\<rparr>"

subsection \<open>runJobs: every item once\<close>

text \<open>
  The number of workers \<open>runJobs\<close> starts: the value of \<open>conc\<close> after the two clamps
  (\<open>tot\<close> stands for the parameter \<open>total\<close>).
\<close>

definition workerCount :: "nat \<Rightarrow> int \<Rightarrow> nat" where
  "workerCount tot conc =
     (let conc = (if int tot < conc then int tot else conc);
          conc = (if conc \<le> 0 then 1 else conc)
      in nat conc)"

text \<open>
  \<open>runJobs\<close> starts the workers, sends the indices \<open>0, ..., total-1\<close> into the buffered
  channel \<open>jobs\<close>, closes it and waits for the workers. A worker is blocked on the channel,
  is executing \<open>fn(idx)\<close>, or has returned. The run is the interleaving of these atomic
  actions:
  \<^item> \<open>Send\<close>: the dispatch loop puts its index \<open>i\<close> into the channel, which has room;
  \<^item> \<open>Close\<close>: after the loop, \<open>close(jobs)\<close>;
  \<^item> \<open>Recv w\<close>: worker \<open>w\<close> takes the first index from the channel;
  \<^item> \<open>Finish w err d\<close>: worker \<open>w\<close>'s call of \<open>fn\<close> returns \<open>err\<close> after \<open>d\<close> ms, and
    the worker records the outcome (\<open>durations[idx]\<close> and one of the atomic counters);
  \<^item> \<open>Exit w\<close>: worker \<open>w\<close> finds the channel js_closed and empty and returns.
  \<open>js_calls\<close> is the log of the completed js_calls of \<open>fn\<close>, kept for the statements.
\<close>

datatype worker = Idle | Busy nat | Done

datatype action = Send | Close | Recv nat | Finish nat "string option" int | Exit nat

record jobs_state =
  js_next_i :: nat
  js_chan :: "nat list"
  js_closed :: bool
  js_workers :: "worker list"
  js_durations :: "int list"
  js_successes :: int
  js_errors :: int
  js_calls :: "nat list"

definition jobs_init :: "nat \<Rightarrow> int \<Rightarrow> jobs_state" where
  "jobs_init tot conc =
     \<lparr>js_next_i = 0, js_chan = [], js_closed = False,
      js_workers = replicate (workerCount tot conc) Idle,
      js_durations = replicate tot 0, js_successes = 0, js_errors = 0, js_calls = []\<rparr>"

fun jobs_step :: "nat \<Rightarrow> nat \<Rightarrow> action \<Rightarrow> jobs_state \<Rightarrow> jobs_state option" where
  "jobs_step tot cap Send s =
     (if js_next_i s < tot \<and> length (js_chan s) < cap \<and> \<not> js_closed s
      then Some (s\<lparr>js_chan := js_chan s @ [js_next_i s], js_next_i := Suc (js_next_i s)\<rparr>)
      else None)"
| "jobs_step tot cap Close s =
     (if js_next_i s = tot \<and> \<not> js_closed s then Some (s\<lparr>js_closed := True\<rparr>) else None)"
| "jobs_step tot cap (Recv w) s =
     (if w < length (js_workers s) \<and> js_workers s ! w = Idle
      then (case js_chan s of
              [] \<Rightarrow> None
            | idx # rest \<Rightarrow> Some (s\<lparr>js_workers := (js_workers s)[w := Busy idx], js_chan := rest\<rparr>))
      else None)"
| "jobs_step tot cap (Finish w err d) s =
     (if w < length (js_workers s)
      then (case js_workers s ! w of
              Busy idx \<Rightarrow>
                Some ((if err \<noteq> None
                       then s\<lparr>js_durations := (js_durations s)[idx := - 1], js_errors := js_errors s + 1\<rparr>
                       else s\<lparr>js_durations := (js_durations s)[idx := d], js_successes := js_successes s + 1\<rparr>)
                      \<lparr>js_workers := (js_workers s)[w := Idle], js_calls := js_calls s @ [idx]\<rparr>)
            | _ \<Rightarrow> None)
      else None)"
| "jobs_step tot cap (Exit w) s =
     (if w < length (js_workers s) \<and> js_workers s ! w = Idle \<and> js_chan s = [] \<and> js_closed s
      then Some (s\<lparr>js_workers := (js_workers s)[w := Done]\<rparr>)
      else None)"

fun jobs_exec :: "nat \<Rightarrow> nat \<Rightarrow> action list \<Rightarrow> jobs_state \<Rightarrow> jobs_state option" where
  "jobs_exec tot cap [] s = Some s"
| "jobs_exec tot cap (a # as) s =
     (case jobs_step tot cap a s of None \<Rightarrow> None | Some s' \<Rightarrow> jobs_exec tot cap as s')"

text \<open>\<open>wg.Wait()\<close> returns when every worker has returned.\<close>

definition jobs_finished :: "jobs_state \<Rightarrow> bool" where
  "jobs_finished s = list_all (\<lambda>w. w = Done) (js_workers s)"

text \<open>
  \<open>runJobs total conc\<close> along a schedule of actions: the \<open>jobRun\<close> it returns when the
  schedule is a complete run, \<open>None\<close> when the schedule is not one.
\<close>

definition runJobs :: "nat \<Rightarrow> int \<Rightarrow> action list \<Rightarrow> jobRun option" where
  "runJobs tot conc acts =
     (case jobs_exec tot (workerCount tot conc) acts (jobs_init tot conc) of
        None \<Rightarrow> None
      | Some s \<Rightarrow>
          if jobs_finished s
          then Some (jobRun_zero
                 \<lparr>result := Result_zero\<lparr>Success := js_successes s, Errors := js_errors s\<rparr>,
                  durations := js_durations s\<rparr>)
          else None)"

text \<open>The indices of the workers that are executing a call.\<close>

fun busy_items :: "worker list \<Rightarrow> nat list" where
  "busy_items [] = []"
| "busy_items (Busy idx # ws) = idx # busy_items ws"
| "busy_items (_ # ws) = busy_items ws"

text \<open>
  A schedule that serves every item on worker 0, one after the other, with the outcomes
  given by \<open>err\<close> and \<open>d\<close>, and then lets all the workers return.
\<close>

definition serial_schedule :: "nat \<Rightarrow> nat \<Rightarrow> (nat \<Rightarrow> string option) \<Rightarrow> (nat \<Rightarrow> int) \<Rightarrow> action list" where
  "serial_schedule tot k err d =
     concat (map (\<lambda>i. [Send, Recv 0, Finish 0 (err i) (d i)]) [0..<tot]) @ [Close] @ map Exit [0..<k]"

text \<open>A run of two items on two workers (five requested) in which the items finish out of order.\<close>

definition two_jobs_schedule :: "action list" where
  "two_jobs_schedule =
     [Send, Send, Close, Recv 0, Recv 1, Finish 1 None 7, Finish 0 (Some ''eof'') 3, Exit 0, Exit 1]"

text \<open>
  What holds in every state of a run of \<open>runJobs\<close>: the indices sent so far are the
  completed calls, the calls in progress and the indices waiting in the channel; every
  completed call has incremented one counter; the channel is closed only after the last index
  was sent, and a worker returns only from a closed, empty channel.
\<close>

definition jobs_inv :: "nat \<Rightarrow> jobs_state \<Rightarrow> bool" where
  "jobs_inv tot s \<longleftrightarrow>
     js_next_i s \<le> tot
     \<and> mset (js_calls s) + mset (busy_items (js_workers s)) + mset (js_chan s) = mset [0..<js_next_i s]
     \<and> js_successes s + js_errors s = int (length (js_calls s))
     \<and> length (js_durations s) = tot
     \<and> (js_closed s \<longrightarrow> js_next_i s = tot)
     \<and> (Done \<in> set (js_workers s) \<longrightarrow> js_closed s \<and> js_chan s = [])"

subsection \<open>runTimedJobs: cycle through the items until the deadline\<close>

text \<open>
  The shared variables of \<open>runTimedJobs\<close>. The counters are updated with atomic adds and
  the slices under their mutexes, so the state after \<open>wg.Wait()\<close> is the result of the
  workers' loop iterations applied one after the other, in the order in which they complete.
\<close>

record timed_state =
  ts_successes :: int
  ts_errors :: int
  ts_idx :: nat
  ts_perSec :: "int list list"
  ts_durations :: "int list"
  ts_okCounts :: "int list"
  ts_errCounts :: "int list"

text \<open>
  One iteration of a worker's loop, as the clock and the operation make it: the time elapsed
  since \<open>start\<close> when the deadline is checked, the error \<open>fn\<close> returns, its latency
  \<open>d\<close> in milliseconds, and \<open>time.Since(start)\<close> after the call (both times in
  nanoseconds).
\<close>

record iteration =
  it_checked :: int
  it_err :: "string option"
  it_d :: int
  it_since :: int

text \<open>\<open>buckets\<close>: the number of per-second buckets for a duration.\<close>

definition bucketCount :: "int \<Rightarrow> int" where
  "bucketCount duration =
     (let buckets = int_of_float64 (Ceil (Duration_Seconds duration))
      in if buckets < 1 then 1 else buckets)"

text \<open>\<open>sec\<close>: the bucket index computed after the call.\<close>

definition it_sec :: "iteration \<Rightarrow> int" where
  "it_sec it = int_of_float64 (Duration_Seconds (it_since it))"

definition timed_init :: "int \<Rightarrow> timed_state" where
  "timed_init buckets =
     \<lparr>ts_successes = 0, ts_errors = 0, ts_idx = 0, ts_perSec = replicate (nat buckets) [],
      ts_durations = [], ts_okCounts = replicate (nat buckets) 0,
      ts_errCounts = replicate (nat buckets) 0\<rparr>"

definition worker_iteration :: "int \<Rightarrow> int \<Rightarrow> timed_state \<Rightarrow> iteration \<Rightarrow> timed_state" where
  "worker_iteration duration buckets st it =
     (if duration < it_checked it then st
      else
        let st = st\<lparr>ts_idx := (ts_idx st + 1) mod 2 ^ 64\<rparr>;
            sec = it_sec it;
            st = (if 0 \<le> sec \<and> sec < buckets
                  then (if it_err it \<noteq> None
                        then st\<lparr>ts_errCounts := (ts_errCounts st)[nat sec := ts_errCounts st ! nat sec + 1]\<rparr>
                        else st\<lparr>ts_okCounts := (ts_okCounts st)[nat sec := ts_okCounts st ! nat sec + 1],
                                ts_perSec := (ts_perSec st)[nat sec := ts_perSec st ! nat sec @ [it_d it]]\<rparr>)
                  else st)
        in if it_err it \<noteq> None
           then st\<lparr>ts_durations := ts_durations st @ [- 1], ts_errors := ts_errors st + 1\<rparr>
           else st\<lparr>ts_durations := ts_durations st @ [it_d it], ts_successes := ts_successes st + 1\<rparr>)"

text \<open>The shared state when all workers have returned.\<close>

definition timed_final :: "int \<Rightarrow> iteration list \<Rightarrow> timed_state" where
  "timed_final duration its =
     fold (\<lambda>it st. worker_iteration duration (bucketCount duration) st it) its
       (timed_init (bucketCount duration))"

text \<open>
  \<open>runTimedJobs\<close> for the iterations \<open>its\<close> of its workers; \<open>startMs\<close> is
  \<open>start.UTC().UnixMilli()\<close>. The number of workers bounds how many iterations overlap
  and has no other effect on the result.
\<close>

definition runTimedJobs :: "int \<Rightarrow> int \<Rightarrow> int \<Rightarrow> int \<Rightarrow> iteration list \<Rightarrow> jobRun" where
  "runTimedJobs itemCount conc duration startMs its =
     (if itemCount \<le> 0 then jobRun_zero\<lparr>result := Result_zero\<lparr>Errors := 1\<rparr>\<rparr>
      else
        let buckets = bucketCount duration;
            st = timed_final duration its
        in case percentileSeries (ts_perSec st) of
             (p50, p90, p95, p99) \<Rightarrow>
               \<lparr>result = Result_zero\<lparr>Success := ts_successes st, Errors := ts_errors st\<rparr>,
                durations = ts_durations st,
                seriesSec = map (\<lambda>i. int i + 1) [0..<nat buckets],
                seriesRPS = countsToFloat64 (ts_okCounts st),
                seriesErr = countsToFloat64 (ts_errCounts st),
                seriesP50 = p50, seriesP90 = p90, seriesP95 = p95, seriesP99 = p99,
                seriesStart = startMs\<rparr>)"

text \<open>
  The iterations that passed the deadline check, those of them that succeeded, and those of
  the successes that fall into a bucket; likewise for the failures.
\<close>

definition executed :: "int \<Rightarrow> iteration \<Rightarrow> bool" where
  "executed duration it = (\<not> duration < it_checked it)"

definition in_bucket :: "int \<Rightarrow> iteration \<Rightarrow> bool" where
  "in_bucket buckets it = (0 \<le> it_sec it \<and> it_sec it < buckets)"

definition succeeded :: "int \<Rightarrow> iteration list \<Rightarrow> iteration list" where
  "succeeded duration its = filter (\<lambda>it. executed duration it \<and> it_err it = None) its"

definition failed :: "int \<Rightarrow> iteration list \<Rightarrow> iteration list" where
  "failed duration its = filter (\<lambda>it. executed duration it \<and> it_err it \<noteq> None) its"

text \<open>The state of a timed run in terms of its iterations.\<close>

definition timed_inv :: "int \<Rightarrow> int \<Rightarrow> iteration list \<Rightarrow> timed_state \<Rightarrow> bool" where
  "timed_inv D B its st \<longleftrightarrow>
     length (ts_okCounts st) = nat B \<and> length (ts_errCounts st) = nat B
     \<and> ts_successes st = int (length (succeeded D its))
     \<and> ts_errors st = int (length (failed D its))
     \<and> length (ts_durations st) = length (succeeded D its) + length (failed D its)
     \<and> sum_list (ts_okCounts st) = int (length (filter (in_bucket B) (succeeded D its)))
     \<and> sum_list (ts_errCounts st) = int (length (filter (in_bucket B) (failed D its)))
     \<and> (\<forall>b < nat B. ts_okCounts st ! b = int (length (filter (\<lambda>it. it_sec it = int b) (succeeded D its))))
     \<and> (\<forall>b < nat B. ts_errCounts st ! b = int (length (filter (\<lambda>it. it_sec it = int b) (failed D its))))"

text \<open>
  A run of 3 s: one call finishes within the first second, one fails during the third, and
  one starts 2.9 s into the run and returns 0.6 s later, after the deadline.
\<close>

definition three_seconds :: int where
  "three_seconds = 3000000000"

definition late_call :: iteration where
  "late_call = \<lparr>it_checked = 2900000000, it_err = None, it_d = 600, it_since = 3500000000\<rparr>"

definition run_3s :: "iteration list" where
  "run_3s =
     [\<lparr>it_checked = 0, it_err = None, it_d = 500, it_since = 500000000\<rparr>,
      \<lparr>it_checked = 2000000000, it_err = Some ''EOF'', it_d = 500, it_since = 2500000000\<rparr>,
      late_call]"

section \<open>Report synthesis (report.go)\<close>

subsection \<open>Downsampling\<close>

text \<open>
  The loop \<open>for i := 0; i < n; i += step\<close> of \<open>sampleIndices\<close>, which appends \<open>i\<close>.
  The step is at least 1 when the loop is reached (it is clamped just before), so the test
  \<open>0 < step\<close>, which the termination proof needs, never fails there.
\<close>

function sampleIndices_loop :: "int \<Rightarrow> int \<Rightarrow> int \<Rightarrow> int list" where
  "sampleIndices_loop i n step =
     (if i < n \<and> 0 < step then i # sampleIndices_loop (i + step) n step else [])"
  by pat_completeness auto
termination
  by (relation "measure (\<lambda>(i, n, step). nat (n - i))") auto

declare sampleIndices_loop.simps [simp del]

definition sampleIndices :: "int \<Rightarrow> int \<Rightarrow> int list" where
  "sampleIndices n maxPoints =
     (if n \<le> 0 then []
      else if maxPoints \<le> 0 \<or> n \<le> maxPoints then map int [0..<nat n]
      else
        let step = int_of_float64 (Ceil (fdiv (float64_of_int n) (float64_of_int maxPoints)));
            step = (if step < 1 then 1 else step);
            idxs = sampleIndices_loop 0 n step
        in if idxs ! (length idxs - 1) \<noteq> n - 1 then idxs @ [n - 1] else idxs)"

definition sampleInts :: "int list \<Rightarrow> int list \<Rightarrow> int list" where
  "sampleInts src idxs =
     (if length src = 0 \<or> length idxs = 0 then []
      else map (\<lambda>idx. src ! nat idx) (filter (\<lambda>idx. 0 \<le> idx \<and> idx < int (length src)) idxs))"

definition sampleFloats :: "real list \<Rightarrow> int list \<Rightarrow> real list" where
  "sampleFloats src idxs =
     (if length src = 0 \<or> length idxs = 0 then []
      else map (\<lambda>idx. src ! nat idx) (filter (\<lambda>idx. 0 \<le> idx \<and> idx < int (length src)) idxs))"

definition downsampleResults :: "Result list \<Rightarrow> int \<Rightarrow> Result list" where
  "downsampleResults results maxPoints =
     (if maxPoints \<le> 0 \<or> length results = 0 then results
      else
        map (\<lambda>r.
              if length (SeriesSec r) = 0 \<or> int (length (SeriesSec r)) \<le> maxPoints then r
              else
                let idxs = sampleIndices (int (length (SeriesSec r))) maxPoints
                in r\<lparr>SeriesSec := sampleInts (SeriesSec r) idxs,
                     SeriesRPS := sampleFloats (SeriesRPS r) idxs,
                     SeriesErr := sampleFloats (SeriesErr r) idxs,
                     SeriesP50 := sampleFloats (SeriesP50 r) idxs,
                     SeriesP90 := sampleFloats (SeriesP90 r) idxs,
                     SeriesP95 := sampleFloats (SeriesP95 r) idxs,
                     SeriesP99 := sampleFloats (SeriesP99 r) idxs\<rparr>)
          results)"

text \<open>
  The index selection of the specification, in exact arithmetic: the multiples of
  \<open>step = ceil(N/M)\<close> below \<open>N\<close>, and the final index \<open>N - 1\<close> if it is not among them.
\<close>

definition downsample_spec :: "int \<Rightarrow> int \<Rightarrow> int list" where
  "downsample_spec N M =
     (let step = \<lceil>real_of_int N / real_of_int M\<rceil>;
          kept = map (\<lambda>k. int k * step) [0..<nat \<lceil>real_of_int N / real_of_int step\<rceil>]
      in if last kept = N - 1 then kept else kept @ [N - 1])"

text \<open>A result with a series of ten seconds.\<close>

definition result_10s :: Result where
  "result_10s =
     Result_zero
       \<lparr>SeriesSec := [1, 2, 3, 4, 5, 6, 7, 8, 9, 10],
        SeriesRPS := [10, 20, 30, 40, 50, 60, 70, 80, 90, 100]\<rparr>"

subsection \<open>Error classification\<close>

text \<open>
  Strings are byte strings. \<open>strings.TrimSpace\<close> and \<open>strings.ToLower\<close> are given for
  ASCII text, where white space is tab, line feed, vertical tab, form feed, carriage return
  and space, and the upper case letters are \<open>A\<close> to \<open>Z\<close>; \<open>strings.Contains\<close>
  looks for a contiguous occurrence.
\<close>

definition isSpace :: "char \<Rightarrow> bool" where
  "isSpace c = (c \<in> set [CHR 0x09, CHR 0x0A, CHR 0x0B, CHR 0x0C, CHR 0x0D, CHR '' ''])"

definition TrimSpace :: "string \<Rightarrow> string" where
  "TrimSpace s = rev (dropWhile isSpace (rev (dropWhile isSpace s)))"

definition toLower :: "char \<Rightarrow> char" where
  "toLower c =
     (let n = (of_char c :: nat)
      in if of_char CHR ''A'' \<le> n \<and> n \<le> of_char CHR ''Z'' then char_of (n + 32) else c)"

definition ToLower :: "string \<Rightarrow> string" where
  "ToLower s = map toLower s"

definition HasPrefix :: "string \<Rightarrow> string \<Rightarrow> bool" where
  "HasPrefix s pre = (take (length pre) s = pre)"

fun Contains :: "string \<Rightarrow> string \<Rightarrow> bool" where
  "Contains [] sub = (sub = [])"
| "Contains (c # s) sub = (HasPrefix (c # s) sub \<or> Contains s sub)"

definition classifyError :: "string \<Rightarrow> string" where
  "classifyError s =
     (let v = ToLower (TrimSpace s)
      in if v = [] then ''unknown''
         else if Contains v ''context deadline exceeded'' \<or> Contains v ''timeout'' then ''timeout''
         else if Contains v ''unknown query'' then ''unknown_query''
         else if Contains v ''connection reset'' then ''conn_reset''
         else if Contains v ''broken pipe'' then ''broken_pipe''
         else if Contains v ''eof'' then ''eof''
         else if Contains v ''canceled'' then ''canceled''
         else if Contains v ''not found'' then ''not_found''
         else ''other'')"

text \<open>
  The taxonomy of the specification: the codes in priority order, each with the phrases that
  select it; the first code with a phrase occurring in the normalised message wins, no match
  is \<open>other\<close>, and the empty message is \<open>unknown\<close>.
\<close>

definition occurs_in :: "string \<Rightarrow> string \<Rightarrow> bool" where
  "occurs_in sub v = list_ex (\<lambda>i. take (length sub) (drop i v) = sub) [0..<Suc (length v)]"

definition taxonomy :: "(string \<times> string list) list" where
  "taxonomy =
     [(''timeout'', [''context deadline exceeded'', ''timeout'']),
      (''unknown_query'', [''unknown query'']),
      (''conn_reset'', [''connection reset'']),
      (''broken_pipe'', [''broken pipe'']),
      (''eof'', [''eof'']),
      (''canceled'', [''canceled'']),
      (''not_found'', [''not found''])]"

fun first_match :: "string \<Rightarrow> (string \<times> string list) list \<Rightarrow> string" where
  "first_match v [] = ''other''"
| "first_match v ((code, phrases) # rest) =
     (if list_ex (\<lambda>p. occurs_in p v) phrases then code else first_match v rest)"

definition classify_spec :: "string \<Rightarrow> string" where
  "classify_spec s =
     (let v = ToLower (TrimSpace s) in if v = [] then ''unknown'' else first_match v taxonomy)"

section \<open>Properties of the float64 model\<close>

lemma rhe_floor_bounds: "of_int \<lfloor>x\<rfloor> \<le> x" "x < of_int \<lfloor>x\<rfloor> + 1" for x :: real
  by linarith+

lemma round_half_even_mono: "x \<le> y \<Longrightarrow> round_half_even x \<le> round_half_even y"
proof -
  assume le: "x \<le> y"
  then have "\<lfloor>x\<rfloor> \<le> \<lfloor>y\<rfloor>" by (rule floor_mono)
  then consider "\<lfloor>x\<rfloor> = \<lfloor>y\<rfloor>" | "\<lfloor>x\<rfloor> + 1 \<le> \<lfloor>y\<rfloor>" by linarith
  then show ?thesis
  proof cases
    case 1
    then show ?thesis using le by (auto simp: round_half_even_def Let_def)
  next
    case 2
    have "round_half_even x \<le> \<lfloor>x\<rfloor> + 1" by (simp add: round_half_even_def Let_def)
    moreover have "\<lfloor>y\<rfloor> \<le> round_half_even y" by (simp add: round_half_even_def Let_def)
    ultimately show ?thesis using 2 by linarith
  qed
qed

lemma round_half_even_of_int: "round_half_even (of_int k) = k"
  by (simp add: round_half_even_def)

lemma round_half_even_zero: "round_half_even 0 = 0"
  by (simp add: round_half_even_def)

lemma of_int_pow2_le: "2 ^ n \<le> k \<Longrightarrow> (2 ^ n :: real) \<le> of_int k"
  using of_int_le_iff [of "2 ^ n" k, where ?'a = real] by simp

lemma of_int_less_pow2: "k < 2 ^ n \<Longrightarrow> (of_int k :: real) < 2 ^ n"
  using of_int_less_iff [of k "2 ^ n", where ?'a = real] by simp

lemma of_int_le_pow2: "k \<le> 2 ^ n \<Longrightarrow> (of_int k :: real) \<le> 2 ^ n"
  using of_int_le_iff [of k "2 ^ n", where ?'a = real] by simp

lemma round_half_even_ge: "of_int k \<le> x \<Longrightarrow> k \<le> round_half_even x"
  using round_half_even_mono [of "of_int k" x] by (simp add: round_half_even_of_int)

lemma round_half_even_le: "x \<le> of_int k \<Longrightarrow> round_half_even x \<le> k"
  using round_half_even_mono [of x "of_int k"] by (simp add: round_half_even_of_int)

lemma round_half_even_numeral: "round_half_even (numeral w) = numeral w"
  using round_half_even_of_int [of "numeral w"] by simp

lemma round_half_even_err: "\<bar>of_int (round_half_even x) - x\<bar> \<le> 1 / 2"
  using rhe_floor_bounds [of x] by (auto simp: round_half_even_def Let_def)

lemma round_half_even_near: "of_int m \<le> x \<Longrightarrow> x < of_int m + 1 / 2 \<Longrightarrow> round_half_even x = m"
proof -
  assume a: "of_int m \<le> x" "x < of_int m + 1 / 2"
  then have "\<lfloor>x\<rfloor> = m" by (intro floor_unique) auto
  then show ?thesis using a by (simp add: round_half_even_def Let_def)
qed

lemma rnd_pos_nonpos: "x \<le> 0 \<Longrightarrow> rnd_pos x = 0"
  by (simp add: rnd_pos.simps)

lemma rnd_pos_norm: "2 ^ 52 \<le> x \<Longrightarrow> x < 2 ^ 53 \<Longrightarrow> rnd_pos x = of_int (round_half_even x)"
  by (subst rnd_pos.simps) auto

lemma rnd_pos_double: "0 < x \<Longrightarrow> rnd_pos (2 * x) = 2 * rnd_pos x"
proof -
  assume pos: "0 < x"
  consider "2 ^ 53 \<le> x" | "x < 2 ^ 52" | "2 ^ 52 \<le> x" "x < 2 ^ 53" by linarith
  then show ?thesis
  proof cases
    case 1
    then show ?thesis using pos by (subst rnd_pos.simps) auto
  next
    case 2
    then show ?thesis using pos by (subst (2) rnd_pos.simps) auto
  next
    case 3
    then show ?thesis using pos by (subst rnd_pos.simps) auto
  qed
qed


lemma rnd_pos_nonneg: "0 \<le> rnd_pos x"
proof (induction x rule: rnd_pos.induct)
  case (1 x)
  consider "x \<le> 0" | "0 < x" "2 ^ 53 \<le> x" | "0 < x" "x < 2 ^ 52" | "2 ^ 52 \<le> x" "x < 2 ^ 53"
    by linarith
  then show ?case
  proof cases
    case 1
    then show ?thesis by (simp add: rnd_pos_nonpos)
  next
    case 2
    then have "0 \<le> rnd_pos (x / 2)" using "1.IH"(1) by simp
    then show ?thesis using rnd_pos_double [of "x / 2"] 2 by simp
  next
    case 3
    then have "0 \<le> rnd_pos (2 * x)" using "1.IH"(2) by simp
    then show ?thesis using rnd_pos_double [of x] 3 by simp
  next
    case 4
    have "round_half_even 0 \<le> round_half_even x"
      using 4 by (intro round_half_even_mono) simp
    then show ?thesis using 4 by (simp add: rnd_pos_norm round_half_even_zero)
  qed
qed

lemma rnd_pos_le_pow52: "x \<le> 2 ^ 52 \<Longrightarrow> rnd_pos x \<le> 2 ^ 52"
proof (induction x rule: rnd_pos.induct)
  case (1 x)
  consider "x \<le> 0" | "0 < x" "2 * x < 2 ^ 52" | "0 < x" "x < 2 ^ 52" "2 ^ 52 \<le> 2 * x" | "x = 2 ^ 52"
    using 1(3) by fastforce
  then show ?case
  proof cases
    case 1
    then show ?thesis by (simp add: rnd_pos_nonpos)
  next
    case 2
    then have "rnd_pos (2 * x) \<le> 2 ^ 52" using 1(2) by simp
    then show ?thesis using 2 rnd_pos_double [of x] by simp
  next
    case 3
    then have "rnd_pos (2 * x) = of_int (round_half_even (2 * x))"
      by (intro rnd_pos_norm) simp_all
    moreover have "round_half_even (2 * x) \<le> round_half_even (of_int (2 ^ 53))"
      using 3 by (intro round_half_even_mono) simp
    then have "(of_int (round_half_even (2 * x)) :: real) \<le> of_int (2 ^ 53)"
      unfolding round_half_even_of_int by (simp only: of_int_le_iff)
    ultimately show ?thesis using 3 rnd_pos_double [of x] by simp
  next
    case 4
    then show ?thesis by (simp add: rnd_pos_norm round_half_even_def)
  qed
qed

lemma rnd_pos_mono: "x \<le> y \<Longrightarrow> rnd_pos x \<le> rnd_pos y"
proof (induction y arbitrary: x rule: rnd_pos.induct)
  case (1 y)
  show ?case
  proof (cases "x \<le> 0")
    case True
    then show ?thesis by (simp add: rnd_pos_nonpos rnd_pos_nonneg)
  next
    case False
    then have xpos: "0 < x" and ypos: "0 < y" using 1(3) by simp_all
    consider "2 ^ 53 \<le> y" | "y < 2 ^ 52" | "2 ^ 52 \<le> y" "y < 2 ^ 53" by linarith
    then show ?thesis
    proof cases
      case 1
      have "rnd_pos (x / 2) \<le> rnd_pos (y / 2)"
        using "1.IH"(1) [of "x / 2"] ypos 1 "1.prems" by simp
      then show ?thesis
        using rnd_pos_double [of "x / 2"] rnd_pos_double [of "y / 2"] xpos ypos by simp
    next
      case 2
      have "rnd_pos (2 * x) \<le> rnd_pos (2 * y)"
        using "1.IH"(2) [of "2 * x"] ypos 2 "1.prems" by simp
      then show ?thesis
        using rnd_pos_double [of x] rnd_pos_double [of y] xpos ypos by simp
    next
      case 3
      then have ry: "rnd_pos y = of_int (round_half_even y)" by (rule rnd_pos_norm)
      have "round_half_even (of_int (2 ^ 52)) \<le> round_half_even y"
        using 3 by (intro round_half_even_mono) simp
      then have lo: "(2 ^ 52 :: real) \<le> of_int (round_half_even y)"
        unfolding round_half_even_of_int by (metis of_int_le_iff of_int_numeral of_int_power)
      show ?thesis
      proof (cases "x < 2 ^ 52")
        case True
        then have "rnd_pos x \<le> 2 ^ 52" by (intro rnd_pos_le_pow52) simp
        then show ?thesis using lo ry by simp
      next
        case False
        then have "rnd_pos x = of_int (round_half_even x)"
          using 3 "1.prems" by (intro rnd_pos_norm) simp_all
        then show ?thesis using ry round_half_even_mono [OF "1.prems"] by simp
      qed
    qed
  qed
qed

lemma rnd_pos_of_int: "0 \<le> k \<Longrightarrow> k \<le> 2 ^ 53 \<Longrightarrow> rnd_pos (of_int k) = of_int k"
proof (induction "of_int k :: real" arbitrary: k rule: rnd_pos.induct)
  case 1
  consider "k = 0" | "k = 2 ^ 53" | "0 < k" "k < 2 ^ 52" | "2 ^ 52 \<le> k" "k < 2 ^ 53"
    using "1.prems" by linarith
  then show ?case
  proof cases
    case 1
    then show ?thesis by (simp add: rnd_pos_nonpos)
  next
    case 2
    have "rnd_pos (2 * 2 ^ 52) = 2 * rnd_pos (2 ^ 52)" by (rule rnd_pos_double) simp
    also have "rnd_pos (2 ^ 52) = of_int (round_half_even (of_int (2 ^ 52)))"
      by (subst rnd_pos_norm) simp_all
    finally show ?thesis using 2 by (simp add: round_half_even_numeral)
  next
    case 3
    have "rnd_pos (of_int (2 * k)) = of_int (2 * k)"
      using "1.hyps"(2) [of "2 * k"] 3 by simp
    then show ?thesis using rnd_pos_double [of "of_int k"] 3 by simp
  next
    case 4
    then have "rnd_pos (of_int k) = of_int (round_half_even (of_int k))"
      by (intro rnd_pos_norm of_int_pow2_le of_int_less_pow2)
    then show ?thesis by (simp add: round_half_even_of_int)
  qed
qed


lemma rnd_pos_err: "0 < x \<Longrightarrow> \<bar>rnd_pos x - x\<bar> \<le> rnd_pos x / 2 ^ 53"
proof (induction x rule: rnd_pos.induct)
  case (1 x)
  consider "2 ^ 53 \<le> x" | "x < 2 ^ 52" | "2 ^ 52 \<le> x" "x < 2 ^ 53" by linarith
  then show ?case
  proof cases
    case 1
    then have "\<bar>rnd_pos (x / 2) - x / 2\<bar> \<le> rnd_pos (x / 2) / 2 ^ 53"
      using "1.IH"(1) "1.prems" by simp
    then have "2 * \<bar>rnd_pos (x / 2) - x / 2\<bar> \<le> 2 * rnd_pos (x / 2) / 2 ^ 53" by simp
    moreover have "2 * \<bar>rnd_pos (x / 2) - x / 2\<bar> = \<bar>2 * rnd_pos (x / 2) - x\<bar>"
      by (simp add: abs_if field_simps)
    moreover have "rnd_pos x = 2 * rnd_pos (x / 2)"
      using rnd_pos_double [of "x / 2"] "1.prems" by simp
    ultimately show ?thesis by simp
  next
    case 2
    then have "\<bar>rnd_pos (2 * x) - 2 * x\<bar> \<le> rnd_pos (2 * x) / 2 ^ 53"
      using "1.IH"(2) "1.prems" by simp
    moreover have "rnd_pos (2 * x) = 2 * rnd_pos x"
      using rnd_pos_double [of x] "1.prems" by simp
    moreover have "\<bar>2 * rnd_pos x - 2 * x\<bar> = 2 * \<bar>rnd_pos x - x\<bar>"
      by (simp add: abs_if)
    ultimately show ?thesis by simp
  next
    case 3
    then have r: "rnd_pos x = of_int (round_half_even x)" by (rule rnd_pos_norm)
    have "(2 ^ 52 :: int) \<le> round_half_even x"
      using 3 by (intro round_half_even_ge) simp
    then have "(2 ^ 52 :: real) \<le> of_int (round_half_even x)" by (rule of_int_pow2_le)
    then show ?thesis using round_half_even_err [of x] r by simp
  qed
qed

lemma rnd_pos_near_above:
  "0 < m \<Longrightarrow> of_int m \<le> y \<Longrightarrow> y < 2 ^ 53 \<Longrightarrow> y - of_int m < of_int m / 2 ^ 54
     \<Longrightarrow> rnd_pos y = of_int m"
proof (induction y arbitrary: m rule: rnd_pos.induct)
  case (1 y)
  have "(0::real) < of_int m" using "1.prems" by simp
  then have ypos: "0 < y" using "1.prems" by linarith
  show ?case
  proof (cases "y < 2 ^ 52")
    case True
    have "rnd_pos (2 * y) = of_int (2 * m)"
    proof (rule "1.IH"(2))
      show "\<not> y \<le> 0" using ypos by simp
      show "\<not> 2 ^ 53 \<le> y" using True by simp
      show "y < 2 ^ 52" by (rule True)
      show "0 < 2 * m" using "1.prems" by simp
      show "of_int (2 * m) \<le> 2 * y" using "1.prems" by simp
      show "2 * y < 2 ^ 53" using True by simp
      show "2 * y - of_int (2 * m) < of_int (2 * m) / 2 ^ 54" using "1.prems" by simp
    qed
    then show ?thesis using rnd_pos_double [OF ypos] by simp
  next
    case False
    then have r: "rnd_pos y = of_int (round_half_even y)"
      using "1.prems" by (intro rnd_pos_norm) simp_all
    have "(of_int m :: real) < 2 ^ 53" using "1.prems" by linarith
    then have "y < of_int m + 1 / 2" using "1.prems" by simp
    then have "round_half_even y = m" using "1.prems" by (intro round_half_even_near)
    then show ?thesis using r by simp
  qed
qed

lemma rnd_pos_scale: "0 < x \<Longrightarrow> rnd_pos (x * 2 ^ k) = rnd_pos x * 2 ^ k"
proof (induction k)
  case 0
  then show ?case by simp
next
  case (Suc k)
  have "rnd_pos (2 * (x * 2 ^ k)) = 2 * rnd_pos (x * 2 ^ k)"
    using Suc.prems by (intro rnd_pos_double) simp
  then show ?case using Suc by (simp add: mult.commute mult.left_commute)
qed

lemma rnd_pos_small:
  "2 ^ 52 \<le> x * 2 ^ k \<Longrightarrow> x * 2 ^ k < 2 ^ 53 \<Longrightarrow> rnd_pos x = of_int (round_half_even (x * 2 ^ k)) / 2 ^ k"
proof -
  assume a: "2 ^ 52 \<le> x * 2 ^ k" "x * 2 ^ k < 2 ^ 53"
  have "(0::real) < 2 ^ 52" by simp
  then have "0 < x * 2 ^ k" using a by linarith
  then have "0 < x" by (simp add: zero_less_mult_iff)
  then have "rnd_pos (x * 2 ^ k) = rnd_pos x * 2 ^ k" by (rule rnd_pos_scale)
  then show ?thesis using rnd_pos_norm [OF a] by (simp add: field_simps)
qed

lemma rnd_pos_large:
  "2 ^ 52 \<le> x / 2 ^ k \<Longrightarrow> x / 2 ^ k < 2 ^ 53 \<Longrightarrow> rnd_pos x = of_int (round_half_even (x / 2 ^ k)) * 2 ^ k"
proof -
  assume a: "2 ^ 52 \<le> x / 2 ^ k" "x / 2 ^ k < 2 ^ 53"
  have "(0::real) < 2 ^ 52" by simp
  then have "0 < x / 2 ^ k" using a by linarith
  then have "rnd_pos (x / 2 ^ k * 2 ^ k) = rnd_pos (x / 2 ^ k) * 2 ^ k" by (rule rnd_pos_scale)
  then show ?thesis using rnd_pos_norm [OF a] by simp
qed

lemma float64_nonneg_eq: "0 \<le> x \<Longrightarrow> float64 x = rnd_pos x"
  by (simp add: float64_def)

lemma float64_zero: "float64 0 = 0"
  by (simp add: float64_def rnd_pos_nonpos)

lemma float64_nonneg: "0 \<le> x \<Longrightarrow> 0 \<le> float64 x"
  by (simp add: float64_def rnd_pos_nonneg)

lemma float64_mono: "x \<le> y \<Longrightarrow> float64 x \<le> float64 y"
proof -
  assume le: "x \<le> y"
  consider "0 \<le> x" | "x < 0" "0 \<le> y" | "y < 0" using le by linarith
  then show ?thesis
  proof cases
    case 1
    then show ?thesis using le by (simp add: float64_def rnd_pos_mono)
  next
    case 2
    have "0 \<le> rnd_pos (- x)" "0 \<le> rnd_pos y" by (rule rnd_pos_nonneg)+
    then show ?thesis using 2 by (simp add: float64_def)
  next
    case 3
    then have "rnd_pos (- y) \<le> rnd_pos (- x)" using le by (intro rnd_pos_mono) simp
    then show ?thesis using 3 le by (simp add: float64_def)
  qed
qed

lemma float64_of_int_exact: "\<bar>k\<bar> \<le> 2 ^ 53 \<Longrightarrow> float64_of_int k = of_int k"
proof (cases "k < 0")
  case True
  assume "\<bar>k\<bar> \<le> 2 ^ 53"
  then have "rnd_pos (of_int (- k)) = of_int (- k)" using True by (intro rnd_pos_of_int) simp_all
  then show ?thesis using True by (simp add: float64_of_int_def float64_def)
next
  case False
  assume "\<bar>k\<bar> \<le> 2 ^ 53"
  then have "rnd_pos (of_int k) = of_int k" using False by (intro rnd_pos_of_int) simp_all
  then show ?thesis using False by (simp add: float64_of_int_def float64_def)
qed

lemma float64_of_int_mono: "a \<le> b \<Longrightarrow> float64_of_int a \<le> float64_of_int b"
  by (simp add: float64_of_int_def float64_mono)

lemma float64_of_int_nonneg: "0 \<le> a \<Longrightarrow> 0 \<le> float64_of_int a"
  by (simp add: float64_of_int_def float64_nonneg)

lemma int_of_float64_of_int: "int_of_float64 (of_int k) = k"
  by (simp add: int_of_float64_def)

lemma ceil_rnd_pos_between:
  assumes "0 \<le> j" "j + 1 \<le> 2 ^ 53" "of_int j < y" "y \<le> of_int j + 1"
    and "of_int j / 2 ^ 53 < y - of_int j"
  shows "\<lceil>rnd_pos y\<rceil> = j + 1"
proof -
  have ypos: "0 < y" using assms(1,3) by (smt (verit) of_int_0_le_iff)
  have "rnd_pos y \<le> rnd_pos (of_int (j + 1))" using assms(4) by (intro rnd_pos_mono) simp
  then have up: "rnd_pos y \<le> of_int j + 1" using rnd_pos_of_int [of "j + 1"] assms(1,2) by simp
  have "rnd_pos (of_int j) \<le> rnd_pos y" using assms(3) by (intro rnd_pos_mono) simp
  then have lo: "of_int j \<le> rnd_pos y" using rnd_pos_of_int [of j] assms(1,2) by simp
  have "rnd_pos y \<noteq> of_int j"
  proof
    assume eq: "rnd_pos y = of_int j"
    have "\<bar>rnd_pos y - y\<bar> \<le> rnd_pos y / 2 ^ 53" using ypos by (rule rnd_pos_err)
    then show False using eq assms(3,5) by simp
  qed
  then have "of_int j < rnd_pos y" using lo by simp
  then show ?thesis using up by (intro ceiling_unique) simp_all
qed

lemma ceil_rnd_pos_near_integer:
  fixes j :: int and t y f :: real
  assumes j: "0 \<le> j" "j \<le> 2 ^ 45"
    and t: "t = of_int j + f"
    and f: "f = 0 \<or> (1 / 100 \<le> f \<and> f \<le> 99 / 100)"
    and close: "\<bar>y - t\<bar> \<le> 1 / 512"
    and j1: "f = 0 \<Longrightarrow> 1 \<le> j"
    and above: "f = 0 \<Longrightarrow> t < y \<Longrightarrow> y - t < of_int j / 2 ^ 54"
  shows "\<lceil>rnd_pos y\<rceil> = \<lceil>t\<rceil>"
proof -
  define q where "q = (of_int j / 2 ^ 53 :: real)"
  define J where "J = (of_int j :: real)"
  have "J \<le> 2 ^ 45" unfolding J_def using j(2) by (metis of_int_le_iff of_int_numeral of_int_power)
  then have jr: "J \<le> 35184372088832" by simp
  have jr0: "0 \<le> J" unfolding J_def using j(1) by simp
  have q: "q = J / 9007199254740992" by (simp add: q_def J_def)
  have t': "t = J + f" using t by (simp add: J_def)
  consider (exact) "f = 0" "y = t" | (below) "f = 0" "y < t" | (above) "f = 0" "t < y"
    | (frac) "1 / 100 \<le> f" "f \<le> 99 / 100"
    using f by linarith
  then show ?thesis
  proof cases
    case exact
    then have "rnd_pos y = of_int j" using t j rnd_pos_of_int [of j] by simp
    then show ?thesis using exact t by simp
  next
    case below
    have j1': "1 \<le> j" using below j1 by simp
    have "\<lceil>rnd_pos y\<rceil> = (j - 1) + 1"
    proof (rule ceil_rnd_pos_between)
      show "0 \<le> j - 1" using j1' by simp
      show "j - 1 + 1 \<le> 2 ^ 53" using j(2) by simp
      show "of_int (j - 1) < y" using below t' close by (simp add: J_def [symmetric])
      show "y \<le> of_int (j - 1) + 1" using below t' by (simp add: J_def [symmetric])
      have "(J - 1) / 9007199254740992 < y - (J - 1)" using below t' close jr jr0 by argo
      then show "of_int (j - 1) / 2 ^ 53 < y - of_int (j - 1)" by (simp add: J_def)
    qed
    then show ?thesis using below t by simp
  next
    case above
    have "rnd_pos y = of_int j"
    proof (rule rnd_pos_near_above)
      show "0 < j" using above j1 by simp
      show "of_int j \<le> y" using above t by simp
      have "y < 9007199254740992" using above t' close jr by argo
      then show "y < 2 ^ 53" by simp
      show "y - of_int j < of_int j / 2 ^ 54" using assms(7) above t by simp
    qed
    then show ?thesis using above t by simp
  next
    case frac
    have "\<lceil>rnd_pos y\<rceil> = j + 1"
    proof (rule ceil_rnd_pos_between)
      show "0 \<le> j" by (rule j(1))
      show "j + 1 \<le> 2 ^ 53" using j(2) by simp
      show "of_int j < y" using frac t' close unfolding J_def [symmetric] by argo
      show "y \<le> of_int j + 1" using frac t' close unfolding J_def [symmetric] by argo
      have "J / 9007199254740992 < y - J" using frac t' close jr jr0 by argo
      then show "of_int j / 2 ^ 53 < y - of_int j" by (simp add: J_def)
    qed
    moreover have "\<lceil>t\<rceil> = j + 1" using frac t by (intro ceiling_unique) simp_all
    ultimately show ?thesis by simp
  qed
qed


lemma ceil_float_percent:
  fixes n :: nat and P c e :: int
  assumes n: "1 \<le> n" "n \<le> 2 ^ 45"
    and P: "0 < P" "P \<le> 100"
    and c: "c * 100 = P * 2 ^ 53 + e"
    and e: "- 50 \<le> e" "2 * e < P"
  shows "\<lceil>rnd_pos (of_int c / 2 ^ 53 * of_nat n)\<rceil> = \<lceil>of_int P / 100 * of_nat n :: real\<rceil>"
proof -
  define N where "N = int n"
  define j where "j = (P * N) div 100"
  define r where "r = (P * N) mod 100"
  define t where "t = (of_int P / 100 * of_nat n :: real)"
  define y where "y = (of_int c / 2 ^ 53 * of_nat n :: real)"
  have "1 \<le> int n \<and> int n \<le> 2 ^ 45"
    using n by (metis of_nat_1 of_nat_le_iff of_nat_numeral of_nat_power)
  then have N: "1 \<le> N" "N \<le> 2 ^ 45" by (simp_all add: N_def)
  have PN: "P * N = 100 * j + r" by (simp add: j_def r_def)
  have r: "0 \<le> r" "r < 100" by (simp_all add: r_def)
  have "of_int (P * N) = (of_int (100 * j + r) :: real)" using PN by simp
  then have t: "t = of_int j + of_int r / 100" by (simp add: t_def N_def)
  have "of_int (c * 100) = (of_int (P * 2 ^ 53 + e) :: real)" using c by simp
  then have "of_int c = (of_int P * 2 ^ 53 + of_int e) / (100 :: real)" by simp
  then have c': "of_int c / 2 ^ 53 = (of_int P / 100 + of_int e / (100 * 2 ^ 53) :: real)"
    by (simp add: add_divide_distrib)
  have yt: "y - t = of_int (e * N) / (100 * 2 ^ 53)"
    unfolding y_def t_def c' by (simp add: N_def algebra_simps)
  have e50: "e \<le> 50" using e P by linarith
  have "e * N \<le> 50 * N" using e50 N by (intro mult_right_mono) simp_all
  then have eN1: "e * N \<le> 50 * 2 ^ 45" using N by linarith
  have "- 50 * N \<le> e * N" using e N by (intro mult_right_mono) simp_all
  then have eN2: "- (50 * 2 ^ 45) \<le> e * N" using N by linarith
  have "(of_int (e * N) :: real) \<le> of_int (50 * 2 ^ 45)" using eN1 by (simp only: of_int_le_iff)
  moreover have "(of_int (- (50 * 2 ^ 45)) :: real) \<le> of_int (e * N)" using eN2 by (simp only: of_int_le_iff)
  ultimately have close: "\<bar>y - t\<bar> \<le> 1 / 512" unfolding yt by (simp add: abs_le_iff field_simps)
  have "100 * j \<le> 100 * N" using PN r P N mult_right_mono [of P 100 N] by linarith
  then have jN: "j \<le> N" by simp
  have "0 \<le> P * N" using P N by simp
  then have j0: "0 \<le> j" unfolding j_def by (simp add: pos_imp_zdiv_nonneg_iff)
  have "\<lceil>rnd_pos y\<rceil> = \<lceil>t\<rceil>"
  proof (rule ceil_rnd_pos_near_integer [where j = j and f = "of_int r / 100"])
    show "0 \<le> j" by (rule j0)
    show "j \<le> 2 ^ 45" using jN N by linarith
    show "t = of_int j + of_int r / 100" by (rule t)
    show "(of_int r / 100 :: real) = 0 \<or> (1 / 100 \<le> (of_int r / 100 :: real) \<and> (of_int r / 100 :: real) \<le> 99 / 100)"
    proof (cases "r = 0")
      case True
      then show ?thesis by simp
    next
      case False
      then have "1 \<le> r" "r \<le> 99" using r by linarith+
      then have "(1 :: real) \<le> of_int r" "(of_int r :: real) \<le> 99" by simp_all
      then show ?thesis by simp
    qed
    show "\<bar>y - t\<bar> \<le> 1 / 512" by (rule close)
    show "1 \<le> j" if "of_int r / 100 = (0 :: real)"
    proof -
      have "r = 0" using that by simp
      moreover have "0 < P * N" using P N by simp
      ultimately show ?thesis using PN by linarith
    qed
    show "y - t < of_int j / 2 ^ 54" if "of_int r / 100 = (0 :: real)" "t < y"
    proof -
      have r0: "r = 0" using that by simp
      have "2 * e * N < P * N" using e N by (intro mult_strict_right_mono) simp_all
      then have "2 * (e * N) < 100 * j" using PN r0 by (simp add: mult.assoc)
      then have "(of_int (2 * (e * N)) :: real) < of_int (100 * j)" by (simp only: of_int_less_iff)
      then show ?thesis unfolding yt by (simp add: field_simps)
    qed
  qed
  then show ?thesis by (simp add: y_def t_def)
qed

lemma float64_050: "float64 (50 / 100) = 4503599627370496 / 2 ^ 53"
  unfolding float64_def by (subst rnd_pos_small [where k = 53]) (simp_all add: round_half_even_def Let_def)

lemma float64_090: "float64 (90 / 100) = 8106479329266893 / 2 ^ 53"
  unfolding float64_def by (subst rnd_pos_small [where k = 53]) (simp_all add: round_half_even_def Let_def)

lemma float64_095: "float64 (95 / 100) = 8556839292003942 / 2 ^ 53"
  unfolding float64_def by (subst rnd_pos_small [where k = 53]) (simp_all add: round_half_even_def Let_def)

lemma float64_099: "float64 (99 / 100) = 8917127262193582 / 2 ^ 53"
  unfolding float64_def by (subst rnd_pos_small [where k = 53]) (simp_all add: round_half_even_def Let_def)

section \<open>Percentiles\<close>

lemma percentile_ceil_index:
  fixes P c e :: int
  assumes vals: "vals \<noteq> []" "length vals \<le> 2 ^ 45"
    and P: "0 < P" "P \<le> 100"
    and d: "float64 (of_int P / 100) = of_int c / 2 ^ 53"
    and c: "c * 100 = P * 2 ^ 53 + e" and e: "- 50 \<le> e" "2 * e < P"
  shows "percentile vals (of_int P) = float64_of_int (vals ! nat (\<lceil>of_int P / 100 * real (length vals)\<rceil> - 1))"
    and "1 \<le> \<lceil>of_int P / 100 * real (length vals)\<rceil>"
    and "\<lceil>of_int P / 100 * real (length vals)\<rceil> \<le> int (length vals)"
proof -
  define n where "n = length vals"
  have n: "1 \<le> n" "n \<le> 2 ^ 45" using vals by (simp_all add: n_def Suc_le_eq)
  have "int n \<le> 2 ^ 45" using n(2) by (metis of_nat_le_iff of_nat_numeral of_nat_power)
  then have "\<bar>int n\<bar> \<le> 2 ^ 53" by simp
  then have fn: "float64_of_int (int n) = real n" using float64_of_int_exact [of "int n"] by simp
  have c0: "0 \<le> c" using c P e by simp
  have "0 \<le> (of_int c / 2 ^ 53 * real n :: real)" using c0 by simp
  then have m: "fmul (fdiv (of_int P) 100) (float64_of_int (int n)) = rnd_pos (of_int c / 2 ^ 53 * real n)"
    by (simp add: fmul_def fdiv_def d fn float64_nonneg_eq)
  have k: "\<lceil>rnd_pos (of_int c / 2 ^ 53 * real n)\<rceil> = \<lceil>of_int P / 100 * real n :: real\<rceil>"
    using n P c e by (rule ceil_float_percent)
  have pos: "0 < (of_int P / 100 * real n :: real)" using P n by simp
  then show lo: "1 \<le> \<lceil>of_int P / 100 * real (length vals)\<rceil>" by (simp add: n_def)
  have "of_int P / 100 * real n \<le> 1 * real n" using P by (intro mult_right_mono) simp_all
  then have "\<lceil>of_int P / 100 * real n\<rceil> \<le> \<lceil>real n\<rceil>" by (intro ceiling_mono) simp
  then show hi: "\<lceil>of_int P / 100 * real (length vals)\<rceil> \<le> int (length vals)" by (simp add: n_def)
  show "percentile vals (of_int P) = float64_of_int (vals ! nat (\<lceil>of_int P / 100 * real (length vals)\<rceil> - 1))"
    using lo hi n(1) m k
    by (simp add: percentile_def Let_def Ceil_def int_of_float64_of_int n_def [symmetric])
qed

lemma percentile_nearest_rank_aux:
  assumes "p = 50 \<or> p = 90 \<or> p = 95 \<or> p = 99" "vals \<noteq> []" "length vals \<le> 2 ^ 45"
  shows "percentile vals p = float64_of_int (vals ! nat (\<lceil>p / 100 * real (length vals)\<rceil> - 1))
    \<and> 1 \<le> \<lceil>p / 100 * real (length vals)\<rceil> \<and> \<lceil>p / 100 * real (length vals)\<rceil> \<le> int (length vals)"
proof -
  consider "p = 50" | "p = 90" | "p = 95" | "p = 99" using assms(1) by blast
  then show ?thesis
  proof cases
    case 1
    show ?thesis
      using percentile_ceil_index [OF assms(2,3), of 50 4503599627370496 0] float64_050
      by (simp add: 1)
  next
    case 2
    show ?thesis
      using percentile_ceil_index [OF assms(2,3), of 90 8106479329266893 20] float64_090
      by (simp add: 2)
  next
    case 3
    show ?thesis
      using percentile_ceil_index [OF assms(2,3), of 95 8556839292003942 "- 40"] float64_095
      by (simp add: 3)
  next
    case 4
    show ?thesis
      using percentile_ceil_index [OF assms(2,3), of 99 8917127262193582 "- 8"] float64_099
      by (simp add: 4)
  qed
qed

lemma float64_of_int_numeral [simp]: "float64_of_int (numeral w) = numeral w" if "numeral w \<le> (2 ^ 53 :: int)"
  using float64_of_int_exact [of "numeral w"] that by simp

lemma float64_028: "float64 (28 / 100) = 5044031582654956 / 2 ^ 54"
  unfolding float64_def by (subst rnd_pos_small [where k = 54]) (simp_all add: round_half_even_def Let_def)

lemma fmul_028_25: "fmul (5044031582654956 / 2 ^ 54) 25 = 7881299347898369 / 2 ^ 50"
  unfolding float64_def fmul_def by (subst rnd_pos_small [where k = 50]) (simp_all add: round_half_even_def Let_def)

lemma percentile_fixture25_28: "percentile fixture25 28 = 8"
proof -
  have d: "fdiv 28 100 = 5044031582654956 / 2 ^ 54"
    unfolding fdiv_def by (rule float64_028)
  have n: "float64_of_int (int (length fixture25)) = 25"
    by (simp add: fixture25_def)
  have m: "fmul (fdiv 28 100) (float64_of_int (int (length fixture25))) = 7881299347898369 / 2 ^ 50"
    unfolding d n by (rule fmul_028_25)
  show ?thesis
    unfolding percentile_def Let_def m
    by (simp add: Ceil_def int_of_float64_def fixture25_def)
qed



text \<open>
  The list of percentiles in C2 matters to the proof, not to the program: the index is
  computed in float64, and for a percentile that no caller requests the product can round
  up past an integer. With 25 samples and p = 28 the exact rank is 7 (index 6), and
  (28/100.0)*25 evaluates to the float64 above 7, which selects index 7.
\<close>

lemma percentile_unrequested_28:
  "percentile fixture25 28 = float64_of_int (fixture25 ! 7) \<and> nearest_rank_index (length fixture25) 28 = 6"
  by (simp add: percentile_fixture25_28) (simp add: fixture25_def nearest_rank_index_def)

text \<open>
  C3. On the fixture of ten sorted samples 1..10 ms, p50 is the sample at index
  ceil(0.5 * 10) - 1 = 4, which is 5 ms, and p99 is the sample at index
  ceil(0.99 * 10) - 1 = 9, which is 10 ms.
\<close>

theorem percentile_fixture10:
  "percentile fixture10 50 = float64_of_int (fixture10 ! 4) \<and> percentile fixture10 50 = 5
     \<and> percentile fixture10 99 = float64_of_int (fixture10 ! 9) \<and> percentile fixture10 99 = 10"
  using percentile_nearest_rank_aux [of 50 fixture10] percentile_nearest_rank_aux [of 99 fixture10]
  by (simp add: fixture10_def)

text \<open>
  C3 as stated has p99 at index 8, the sample of 9 ms; the product 0.99 * 10 is 9.9, its
  ceiling 10, and the sample returned is the one at index 9.
\<close>

theorem percentile_fixture10_counterexample:
  "fixture10 ! 8 = 9 \<and> percentile fixture10 99 \<noteq> float64_of_int (fixture10 ! 8)"
  using percentile_nearest_rank_aux [of 99 fixture10]
  by (simp add: fixture10_def)

lemma percentile_eq_idx:
  "vals \<noteq> [] \<Longrightarrow> percentile vals p = float64_of_int (vals ! nat (percentile_idx (length vals) p))"
  by (simp add: percentile_def percentile_idx_def Let_def)

lemma percentile_idx_range: "0 < n \<Longrightarrow> 0 \<le> percentile_idx n p \<and> percentile_idx n p < int n"
  by (simp add: percentile_idx_def Let_def)

lemma clamp_idx_mono: "a \<le> b \<Longrightarrow> clamp_idx n a \<le> clamp_idx n b"
  by (auto simp: clamp_idx_def)

lemma percentile_idx_mono: "p \<le> q \<Longrightarrow> percentile_idx n p \<le> percentile_idx n q"
proof -
  assume pq: "p \<le> q"
  have N: "0 \<le> float64_of_int (int n)" by (rule float64_of_int_nonneg) simp
  have "fdiv p 100 \<le> fdiv q 100" unfolding fdiv_def using pq by (intro float64_mono) simp
  then have "fdiv p 100 * float64_of_int (int n) \<le> fdiv q 100 * float64_of_int (int n)"
    using N by (rule mult_right_mono)
  then have "fmul (fdiv p 100) (float64_of_int (int n)) \<le> fmul (fdiv q 100) (float64_of_int (int n))"
    unfolding fmul_def by (rule float64_mono)
  then have "\<lceil>fmul (fdiv p 100) (float64_of_int (int n))\<rceil> \<le> \<lceil>fmul (fdiv q 100) (float64_of_int (int n))\<rceil>"
    by (rule ceiling_mono)
  then have "clamp_idx n (\<lceil>fmul (fdiv p 100) (float64_of_int (int n))\<rceil> - 1)
      \<le> clamp_idx n (\<lceil>fmul (fdiv q 100) (float64_of_int (int n))\<rceil> - 1)"
    by (intro clamp_idx_mono) simp
  then show ?thesis
    by (simp add: percentile_idx_def clamp_idx_def Let_def Ceil_def int_of_float64_of_int)
qed

lemma percentile_mono:
  assumes "sorted vals" "p \<le> q"
  shows "percentile vals p \<le> percentile vals q"
proof (cases "vals = []")
  case True
  then show ?thesis by (simp add: percentile_def)
next
  case False
  then have n: "0 < length vals" by simp
  have "nat (percentile_idx (length vals) p) \<le> nat (percentile_idx (length vals) q)"
    using percentile_idx_mono [OF assms(2), of "length vals"] by (rule nat_mono)
  moreover have "nat (percentile_idx (length vals) q) < length vals"
    using percentile_idx_range [OF n, of q] by linarith
  ultimately have "vals ! nat (percentile_idx (length vals) p) \<le> vals ! nat (percentile_idx (length vals) q)"
    using assms(1) by (intro sorted_nth_mono)
  then show ?thesis using False by (simp add: percentile_eq_idx float64_of_int_mono)
qed

lemma percentile_le_last:
  assumes "sorted vals" "vals \<noteq> []"
  shows "percentile vals p \<le> float64_of_int (vals ! (length vals - 1))"
proof -
  have n: "0 < length vals" using assms(2) by simp
  have "nat (percentile_idx (length vals) p) < length vals"
    using percentile_idx_range [OF n, of p] by linarith
  then have "nat (percentile_idx (length vals) p) \<le> length vals - 1" by linarith
  then have "vals ! nat (percentile_idx (length vals) p) \<le> vals ! (length vals - 1)"
    using assms(1) n by (intro sorted_nth_mono) simp_all
  then show ?thesis using assms(2) by (simp add: percentile_eq_idx float64_of_int_mono)
qed

text \<open>
  C4. The statistics of computeMetrics are ordered: p50 <= p90 <= p95 <= p99 <= max, for
  every list of samples and every success count.
\<close>

theorem computeMetrics_ordered:
  "case computeMetrics durs successCount of
     (avg, p50, p90, p95, p99, mx) \<Rightarrow> p50 \<le> p90 \<and> p90 \<le> p95 \<and> p95 \<le> p99 \<and> p99 \<le> mx"
proof -
  define vals where "vals = sort (filter (\<lambda>d. \<not> d < 0) durs)"
  have s: "sorted vals" by (simp add: vals_def)
  show ?thesis
  proof (cases "successCount = 0 \<or> filter (\<lambda>d. \<not> d < 0) durs = []")
    case True
    then show ?thesis by (auto simp: computeMetrics_def)
  next
    case False
    then have ne: "vals \<noteq> []" unfolding vals_def by (metis length_0_conv length_sort)
    have "percentile vals 50 \<le> percentile vals 90" "percentile vals 90 \<le> percentile vals 95"
      "percentile vals 95 \<le> percentile vals 99"
      using s by (intro percentile_mono; simp)+
    moreover have "percentile vals 99 \<le> float64_of_int (vals ! (length vals - 1))"
      using s ne by (rule percentile_le_last)
    ultimately show ?thesis using False by (simp add: computeMetrics_def Let_def vals_def)
  qed
qed

lemma percentile_mixed:
  "percentile [7, 7, 12, 30] 50 = 7" "percentile [7, 7, 12, 30] 90 = 30"
  "percentile [7, 7, 12, 30] 95 = 30" "percentile [7, 7, 12, 30] 99 = 30"
  using percentile_nearest_rank_aux [of 50 "[7, 7, 12, 30]"]
    percentile_nearest_rank_aux [of 90 "[7, 7, 12, 30]"]
    percentile_nearest_rank_aux [of 95 "[7, 7, 12, 30]"]
    percentile_nearest_rank_aux [of 99 "[7, 7, 12, 30]"]
  by simp_all

lemma wrap64_small: "- (2 ^ 63) \<le> x \<Longrightarrow> x < 2 ^ 63 \<Longrightarrow> wrap64 x = x"
  by (simp add: wrap64_def)

lemma float64_14: "float64 (56 / 4) = 14"
  unfolding float64_def by (subst rnd_pos_small [where k = 49]) (simp_all add: round_half_even_def Let_def)

lemma computeMetrics_mixed_run: "computeMetrics mixed_run 4 = (14, 7, 30, 30, 30, 30)"
proof -
  have "sort (filter (\<lambda>d. \<not> d < 0) mixed_run) = [7, 7, 12, 30]"
    by (simp add: mixed_run_def)
  moreover have "fold (\<lambda>v s. wrap64 (s + v)) [7, 7, 12, 30] 0 = 56"
    by (simp add: wrap64_small)
  moreover have "fdiv 56 4 = 14" unfolding fdiv_def by (rule float64_14)
  ultimately show ?thesis
    by (simp add: computeMetrics_def Let_def percentile_mixed mixed_run_def)
qed

theorem computeMetrics_ordered_witness:
  "computeMetrics mixed_run 4 = (14, 7, 30, 30, 30, 30) \<and> (7 :: real) \<le> 30 \<and> (30 :: real) \<le> 30"
  using computeMetrics_ordered [of mixed_run 4] by (simp add: computeMetrics_mixed_run)

lemma wrap64_add_left: "wrap64 (wrap64 a + b) = wrap64 (a + b)"
proof -
  have "(((a + 2 ^ 63) mod 2 ^ 64 - 2 ^ 63) + b + 2 ^ 63) mod 2 ^ 64 = ((a + 2 ^ 63) mod 2 ^ 64 + b) mod (2 ^ 64 :: int)"
    by (simp add: algebra_simps)
  also have "\<dots> = (a + 2 ^ 63 + b) mod 2 ^ 64" by (rule mod_add_left_eq)
  finally show ?thesis by (simp add: wrap64_def algebra_simps)
qed

lemma fold_wrap64_sum:
  "fold (\<lambda>v s. wrap64 (s + v)) xs (wrap64 a) = wrap64 (a + sum_list xs)"
proof (induction xs arbitrary: a)
  case Nil
  then show ?case by simp
next
  case (Cons x xs)
  have "fold (\<lambda>v s. wrap64 (s + v)) (x # xs) (wrap64 a) = fold (\<lambda>v s. wrap64 (s + v)) xs (wrap64 (a + x))"
    by (simp add: wrap64_add_left)
  then show ?case using Cons [of "a + x"] by (simp add: add.assoc)
qed

lemma fold_wrap64_sum0: "fold (\<lambda>v s. wrap64 (s + v)) xs 0 = wrap64 (sum_list xs)"
  using fold_wrap64_sum [of xs 0] by (simp add: wrap64_def)

lemma sum_list_sort: "sum_list (sort xs) = sum_list (xs :: int list)"
  by (metis mset_sort sum_mset_sum_list)

lemma sorted_last_Max:
  assumes "sorted xs" "xs \<noteq> []"
  shows "xs ! (length xs - 1) = Max (set (xs :: int list))"
proof -
  have n: "length xs - 1 < length xs" using assms(2) by simp
  have "x \<le> xs ! (length xs - 1)" if mem: "x \<in> set xs" for x
  proof -
    from mem obtain i where "i < length xs" "xs ! i = x" by (auto simp: in_set_conv_nth)
    then show ?thesis using sorted_nth_mono [OF assms(1), of i "length xs - 1"] n by auto
  qed
  moreover have "xs ! (length xs - 1) \<in> set xs" using n by (rule nth_mem)
  ultimately show ?thesis by (intro Max_eqI [symmetric]) simp_all
qed

lemma computeMetrics_successes:
  assumes "successCount \<noteq> 0" "filter (\<lambda>d. 0 \<le> d) durs \<noteq> []"
  shows "computeMetrics durs successCount =
     (fdiv (float64_of_int (wrap64 (sum_list (filter (\<lambda>d. 0 \<le> d) durs))))
           (float64_of_int (int (length (filter (\<lambda>d. 0 \<le> d) durs)))),
      percentile (sort (filter (\<lambda>d. 0 \<le> d) durs)) 50,
      percentile (sort (filter (\<lambda>d. 0 \<le> d) durs)) 90,
      percentile (sort (filter (\<lambda>d. 0 \<le> d) durs)) 95,
      percentile (sort (filter (\<lambda>d. 0 \<le> d) durs)) 99,
      float64_of_int (Max (set (filter (\<lambda>d. 0 \<le> d) durs))))"
proof -
  define s where "s = filter (\<lambda>d. 0 \<le> d) durs"
  have f: "filter (\<lambda>d. \<not> d < 0) durs = s" by (simp add: s_def not_less)
  have ne: "s \<noteq> []" using assms(2) by (simp add: s_def)
  then have ne': "sort s \<noteq> []" by (metis length_0_conv length_sort)
  have mx: "sort s ! (length s - 1) = Max (set s)"
    using sorted_last_Max [of "sort s"] ne' by simp
  have mx': "sort s ! (length s - Suc 0) = Max (set s)" using mx by simp
  show ?thesis
    unfolding s_def [symmetric]
    using assms(1) ne
    by (simp add: computeMetrics_def f Let_def fold_wrap64_sum0 sum_list_sort mx')
qed

text \<open>
  C5. computeMetrics computes every statistic from the successful samples alone, the failed
  ones (the negative sentinel) being dropped first: the average is the sum of the
  successful samples over their number, the percentiles are those of the sorted successful
  samples, and the maximum is their largest. With no successful sample (a success count of
  zero, or no non-negative sample) all six statistics are zero; applyMetrics on a result
  with no success leaves all six at zero and keeps the counts.
\<close>

theorem computeMetrics_no_success:
  "computeMetrics durs successCount = computeMetrics (filter (\<lambda>d. 0 \<le> d) durs) successCount
   \<and> (successCount \<noteq> 0 \<and> filter (\<lambda>d. 0 \<le> d) durs \<noteq> []
        \<longrightarrow> computeMetrics durs successCount =
             (fdiv (float64_of_int (wrap64 (sum_list (filter (\<lambda>d. 0 \<le> d) durs))))
                   (float64_of_int (int (length (filter (\<lambda>d. 0 \<le> d) durs)))),
              percentile (sort (filter (\<lambda>d. 0 \<le> d) durs)) 50,
              percentile (sort (filter (\<lambda>d. 0 \<le> d) durs)) 90,
              percentile (sort (filter (\<lambda>d. 0 \<le> d) durs)) 95,
              percentile (sort (filter (\<lambda>d. 0 \<le> d) durs)) 99,
              float64_of_int (Max (set (filter (\<lambda>d. 0 \<le> d) durs)))))
   \<and> (successCount = 0 \<or> filter (\<lambda>d. 0 \<le> d) durs = []
        \<longrightarrow> computeMetrics durs successCount = (0, 0, 0, 0, 0, 0))
   \<and> (Success r = 0 \<longrightarrow>
        AvgMs (applyMetrics r durs) = 0 \<and> P50Ms (applyMetrics r durs) = 0
        \<and> P90Ms (applyMetrics r durs) = 0 \<and> P95Ms (applyMetrics r durs) = 0
        \<and> P99Ms (applyMetrics r durs) = 0 \<and> MaxMs (applyMetrics r durs) = 0
        \<and> Success (applyMetrics r durs) = 0 \<and> Errors (applyMetrics r durs) = Errors r)"
proof -
  have f: "filter (\<lambda>d. \<not> d < 0) durs = filter (\<lambda>d. 0 \<le> d) durs"
    by (simp add: not_less)
  have "filter (\<lambda>d. \<not> d < 0) (filter (\<lambda>d. 0 \<le> d) durs) = filter (\<lambda>d. 0 \<le> d) durs"
    by (simp add: not_less)
  then have 1: "computeMetrics durs successCount = computeMetrics (filter (\<lambda>d. 0 \<le> d) durs) successCount"
    unfolding computeMetrics_def f by simp
  have 2: "computeMetrics durs successCount = (0, 0, 0, 0, 0, 0)"
    if "successCount = 0 \<or> filter (\<lambda>d. 0 \<le> d) durs = []"
    using that unfolding computeMetrics_def f by auto
  have 3: "AvgMs (applyMetrics r durs) = 0 \<and> P50Ms (applyMetrics r durs) = 0
        \<and> P90Ms (applyMetrics r durs) = 0 \<and> P95Ms (applyMetrics r durs) = 0
        \<and> P99Ms (applyMetrics r durs) = 0 \<and> MaxMs (applyMetrics r durs) = 0
        \<and> Success (applyMetrics r durs) = 0 \<and> Errors (applyMetrics r durs) = Errors r"
    if "Success r = 0"
    using that by (simp add: applyMetrics_def computeMetrics_def Let_def)
  note 4 = computeMetrics_successes [of successCount durs]
  show ?thesis using 1 2 3 4 by blast
qed

theorem computeMetrics_no_success_witness:
  "computeMetrics all_failed 0 = (0, 0, 0, 0, 0, 0)
   \<and> computeMetrics all_failed 3 = (0, 0, 0, 0, 0, 0)
   \<and> computeMetrics mixed_run 4 = computeMetrics [12, 7, 30, 7] 4
   \<and> filter (\<lambda>d. 0 \<le> d) mixed_run = [12, 7, 30, 7]
   \<and> computeMetrics mixed_run 4 = (14, 7, 30, 30, 30, 30)
   \<and> MaxMs (applyMetrics (Result_zero\<lparr>Errors := 3\<rparr>) all_failed) = 0
   \<and> Errors (applyMetrics (Result_zero\<lparr>Errors := 3\<rparr>) all_failed) = 3"
proof -
  have "computeMetrics all_failed 0 = (0, 0, 0, 0, 0, 0)"
    using computeMetrics_no_success [of all_failed 0 Result_zero, THEN conjunct2, THEN conjunct2,
        THEN conjunct1]
    by simp
  moreover have "computeMetrics all_failed 3 = (0, 0, 0, 0, 0, 0)"
    using computeMetrics_no_success [of all_failed 3 Result_zero, THEN conjunct2, THEN conjunct2,
        THEN conjunct1]
    by (simp add: all_failed_def)
  moreover have "computeMetrics mixed_run 4 = computeMetrics [12, 7, 30, 7] 4"
    using computeMetrics_no_success [of mixed_run 4 Result_zero, THEN conjunct1]
    by (simp add: mixed_run_def)
  moreover have f: "filter (\<lambda>d. 0 \<le> d) mixed_run = [12, 7, 30, 7]"
    by (simp add: mixed_run_def)
  moreover have "computeMetrics mixed_run 4 = (14, 7, 30, 30, 30, 30)"
  proof -
    have p: "(4 :: int) \<noteq> 0 \<and> filter (\<lambda>d. 0 \<le> d) mixed_run \<noteq> []" by (simp add: f)
    note t = computeMetrics_no_success [of mixed_run 4 Result_zero, THEN conjunct2,
        THEN conjunct1, THEN mp, OF p]
    have s: "sort [12, 7, 30, 7] = [7, 7, 12, 30 :: int]" by simp
    have a: "fdiv 56 4 = 14" unfolding fdiv_def by (rule float64_14)
    have w: "wrap64 (sum_list [12, 7, 30, 7]) = 56" by (simp add: wrap64_small)
    have l: "float64_of_int (int (length [12, 7, 30, 7 :: int])) = 4" by simp
    have m: "Max (set [12, 7, 30, 7 :: int]) = 30" by simp
    show ?thesis using t unfolding f s w l m by (simp add: a percentile_mixed)
  qed
  moreover have "MaxMs (applyMetrics (Result_zero\<lparr>Errors := 3\<rparr>) all_failed) = 0
      \<and> Errors (applyMetrics (Result_zero\<lparr>Errors := 3\<rparr>) all_failed) = 3"
    using computeMetrics_no_success [of all_failed 0 "Result_zero\<lparr>Errors := 3\<rparr>",
        THEN conjunct2, THEN conjunct2, THEN conjunct2]
    by (simp add: Result_zero_def)
  ultimately show ?thesis by simp
qed
section \<open>The block picker and the random source\<close>

lemma wrap32_small: "- (2 ^ 31) \<le> x \<Longrightarrow> x < 2 ^ 31 \<Longrightarrow> wrap32 x = x"
  by (simp add: wrap32_def)

lemma lockedRand_Intn_cases:
  obtains (zero) "n \<le> 0" "lockedRand_Intn lr n = (Inr 0, lr)"
  | (draw) v g where "0 < n" "lockedRand_Intn lr n = (Inr v, lr\<lparr>rsrc := g\<rparr>)" "0 \<le> v" "v < n"
  by (cases "n \<le> 0") (auto simp: lockedRand_Intn_def rand_Intn_def)

text \<open>The part of pick after the refresh, for a picker whose bound is in force.\<close>

lemma pick_span:
  assumes B: "1 \<le> B" "B < 2 ^ 31" and W: "1 \<le> W" "W < 2 ^ 31"
  defines "start0 \<equiv> wrap32 (B - W + 1)"
  defines "start \<equiv> (if start0 < 1 then 1 else start0)"
  shows "start = max 1 (B - W + 1)" and "wrap32 (B - start + 1) = B - start + 1"
    and "1 \<le> B - start + 1" and "B - start + 1 \<le> B"
proof -
  have s0: "start0 = B - W + 1" unfolding start0_def using B W by (intro wrap32_small) linarith+
  show s: "start = max 1 (B - W + 1)" by (simp add: start_def s0 max_def)
  show "wrap32 (B - start + 1) = B - start + 1" using s B W by (intro wrap32_small) linarith+
  show "1 \<le> B - start + 1" "B - start + 1 \<le> B" using s B W by linarith+
qed

lemma pick_last_refresh:
  assumes "mode p \<noteq> ''range''"
    and "latest p = 0 \<or> (0 < refresh p \<and> refresh p \<le> time_Sub now (lastRefresh p))"
  shows "pick p now info =
     (case info of
        Inl err \<Rightarrow> (Inr (0, Some err), p)
      | Inr seqno \<Rightarrow> pick_in_window (p\<lparr>latest := wrap32 (int seqno), lastRefresh := now\<rparr>))"
  unfolding pick_def pick_in_window_def Let_def if_not_P [OF assms(1)] if_P [OF assms(2)]
  by (cases info) simp_all

lemma pick_last_cached:
  assumes "mode p \<noteq> ''range''"
    and "\<not> (latest p = 0 \<or> (0 < refresh p \<and> refresh p \<le> time_Sub now (lastRefresh p)))"
  shows "pick p now info = pick_in_window p"
  unfolding pick_def pick_in_window_def Let_def if_not_P [OF assms(1)] if_not_P [OF assms(2)]
  by simp

lemma pick_in_window_state:
  "\<exists>g. snd (pick_in_window p) = p\<lparr>rng := g\<rparr>"
proof -
  define span where "span = wrap32 (latest p - (if wrap32 (latest p - window p + 1) < 1 then 1
      else wrap32 (latest p - window p + 1)) + 1)"
  obtain x g where d: "lockedRand_Intn (rng p) span = (x, g)" by (cases "lockedRand_Intn (rng p) span")
  have "snd (pick_in_window p) = p\<lparr>rng := rng p\<rparr> \<or> snd (pick_in_window p) = p\<lparr>rng := g\<rparr>"
    using d by (cases x) (simp_all add: pick_in_window_def Let_def span_def [symmetric])
  then show ?thesis by blast
qed

lemma pick_in_window_result:
  assumes "1 \<le> window p" "window p < 2 ^ 31" "1 \<le> latest p" "latest p < 2 ^ 31"
  shows "\<exists>v g. pick_in_window p = (Inr (v, None), p\<lparr>rng := g\<rparr>)
           \<and> max 1 (latest p - window p + 1) \<le> v \<and> v \<le> latest p"
proof -
  define start where "start = max 1 (latest p - window p + 1)"
  note sp = pick_span [OF assms(3,4) assms(1,2)]
  define span where "span = latest p - start + 1"
  show ?thesis
  proof (cases "span \<le> 1")
    case True
    then have "start = latest p" using sp(3) by (simp add: span_def start_def sp(1) [symmetric])
    then show ?thesis
      using True sp
      by (intro exI [of _ "latest p"] exI [of _ "rng p"])
        (simp add: pick_in_window_def Let_def start_def span_def)
  next
    case False
    then have pos: "0 < span" by simp
    from lockedRand_Intn_cases [of span "rng p"] pos
    obtain v g where d: "lockedRand_Intn (rng p) span = (Inr v, g)" "0 \<le> v" "v < span"
      by (metis not_less)
    have v32: "wrap32 v = v"
      using d(2,3) sp(4) assms(4) by (intro wrap32_small) (simp_all add: span_def start_def)
    have "wrap32 (start + v) = start + v"
      using d(2,3) assms(4) by (intro wrap32_small) (simp_all add: span_def start_def)
    then show ?thesis
      using False sp d v32
      by (intro exI [of _ "start + v"] exI [of _ g])
        (simp add: pick_in_window_def Let_def start_def span_def)
  qed
qed

lemma pick_in_window_range:
  assumes "1 \<le> window p" "window p < 2 ^ 31"
    and "pick_in_window p = (Inr (v, None), p')" "1 \<le> latest p'" "latest p' < 2 ^ 31"
  shows "max 1 (latest p' - window p + 1) \<le> v \<and> v \<le> latest p'"
proof -
  obtain g where "snd (pick_in_window p) = p\<lparr>rng := g\<rparr>" using pick_in_window_state by blast
  then have l: "latest p' = latest p" using assms(3) by simp
  from pick_in_window_result [OF assms(1,2)] assms(4,5) l
  obtain v' g' where "pick_in_window p = (Inr (v', None), p\<lparr>rng := g'\<rparr>)"
    "max 1 (latest p - window p + 1) \<le> v'" "v' \<le> latest p" by auto
  then show ?thesis using assms(3) l by simp
qed

text \<open>
  C8. In the windowed mode (mode "last") with a window W >= 1 and a bound B >= 1, B being
  the bound in force after the pick's refresh step (the cached one, or the one just
  fetched), a successful pick returns a sequence number in [max(1, B - W + 1), B]. With
  window 200 and bound 1000 that is [801, 1000].
\<close>

theorem pick_window_range:
  assumes "mode p \<noteq> ''range''" "1 \<le> window p" "window p < 2 ^ 31"
    and "pick p now info = (Inr (v, None), p')"
    and "1 \<le> latest p'" "latest p' < 2 ^ 31"
  shows "max 1 (latest p' - window p + 1) \<le> v \<and> v \<le> latest p'"
proof (cases "latest p = 0 \<or> (0 < refresh p \<and> refresh p \<le> time_Sub now (lastRefresh p))")
  case True
  show ?thesis
  proof (cases info)
    case (Inl err)
    then show ?thesis using assms(4) by (simp add: pick_last_refresh [OF assms(1) True])
  next
    case (Inr seqno)
    define p1 where "p1 = p\<lparr>latest := wrap32 (int seqno), lastRefresh := now\<rparr>"
    have "pick_in_window p1 = (Inr (v, None), p')"
      using Inr assms(4) by (simp add: pick_last_refresh [OF assms(1) True] p1_def)
    moreover have "window p1 = window p" by (simp add: p1_def)
    ultimately show ?thesis
      using pick_in_window_range [of p1 v p'] assms(2,3,5,6) by simp
  qed
next
  case False
  have "pick_in_window p = (Inr (v, None), p')"
    using assms(4) by (simp add: pick_last_cached [OF assms(1) False])
  then show ?thesis using pick_in_window_range [of p v p'] assms(2,3,5,6) by simp
qed

theorem pick_window_range_witness:
  "mode picker_1000 \<noteq> ''range'' \<and> window picker_1000 = 200
   \<and> fst (pick picker_1000 1000000000 (Inl ''unused'')) = Inr (818, None)
   \<and> latest (snd (pick picker_1000 1000000000 (Inl ''unused''))) = 1000
   \<and> max 1 (1000 - 200 + 1) \<le> (818 :: int) \<and> (818 :: int) \<le> 1000"
proof -
  have e: "pick picker_1000 1000000000 (Inl ''unused'')
      = (Inr (818, None), picker_1000\<lparr>rng := rng0\<lparr>rsrc := (rsrc rng0)\<lparr>pos := 1\<rparr>\<rparr>\<rparr>)"
    by (simp add: pick_def picker_1000_def newBlockPicker_last_def rng0_def Let_def time_Sub_def
        wrap32_def lockedRand_Intn_def rand_Intn_def)
  have "max 1 (latest (picker_1000\<lparr>rng := rng0\<lparr>rsrc := (rsrc rng0)\<lparr>pos := 1\<rparr>\<rparr>\<rparr>) - window picker_1000 + 1) \<le> 818
      \<and> 818 \<le> latest (picker_1000\<lparr>rng := rng0\<lparr>rsrc := (rsrc rng0)\<lparr>pos := 1\<rparr>\<rparr>\<rparr>)"
    by (rule pick_window_range [OF _ _ _ e]) (simp_all add: picker_1000_def newBlockPicker_last_def)
  then show ?thesis
    by (simp add: e) (simp add: picker_1000_def newBlockPicker_last_def)
qed

text \<open>
  C8 as stated covers every bound and every window. When the masterchain is at sequence
  number 0 the bound fetched is 0 and the pick returns 0, below the lower end 1 of the
  interval. And \<open>last:4294967296\<close> passes parseBlockRange with a window truncated to 0,
  for which the pick returns the bound 1000 while the interval [1001, 1000] is empty.
\<close>

theorem pick_window_range_counterexample:
  "mode picker_fresh \<noteq> ''range'' \<and> window picker_fresh = 200
   \<and> fst (pick picker_fresh 0 (Inr 0)) = Inr (0, None)
   \<and> latest (snd (pick picker_fresh 0 (Inr 0))) = 0
   \<and> \<not> (max 1 (0 - 200 + 1) \<le> (0 :: int) \<and> (0 :: int) \<le> 0)
   \<and> parseBlockRange_last 4294967296 = Inr 0
   \<and> window picker_window_zero = 0
   \<and> fst (pick picker_window_zero 1000000000 (Inl ''unused'')) = Inr (1000, None)
   \<and> latest (snd (pick picker_window_zero 1000000000 (Inl ''unused''))) = 1000
   \<and> \<not> (max 1 (1000 - 0 + 1) \<le> (1000 :: int) \<and> (1000 :: int) \<le> 1000)"
proof -
  have 1: "pick picker_fresh 0 (Inr 0) = (Inr (0, None), picker_fresh)"
    by (simp add: pick_def picker_fresh_def newBlockPicker_last_def Let_def wrap32_def)
  have 2: "pick picker_window_zero 1000000000 (Inl ''unused'') = (Inr (1000, None), picker_window_zero)"
    by (simp add: pick_def picker_window_zero_def newBlockPicker_last_def Let_def wrap32_def
        time_Sub_def)
  have 3: "parseBlockRange_last 4294967296 = Inr 0"
    by (simp add: parseBlockRange_last_def wrap32_def)
  show ?thesis
    unfolding 1 2 3
    by (simp add: picker_fresh_def picker_window_zero_def newBlockPicker_last_def)
qed

text \<open>
  C10. lockedRand.Intn never panics: for n <= 0 it returns 0 and leaves the generator
  untouched, where the generator's own Intn panics; for n > 0 it returns a number in [0, n).
  Hence pick never panics either, whatever the span.
\<close>

theorem lockedRand_Intn_total:
  "(n \<le> 0 \<longrightarrow> lockedRand_Intn lr n = (Inr 0, lr))
   \<and> (\<exists>v lr'. lockedRand_Intn lr n = (Inr v, lr') \<and> 0 \<le> v \<and> (0 < n \<longrightarrow> v < n))
   \<and> (n \<le> 0 \<longrightarrow> fst (rand_Intn (rsrc lr) n) = Inl InvalidArgumentToIntn)
   \<and> (\<exists>res p'. pick p now info = (Inr res, p'))"
proof -
  have 1: "n \<le> 0 \<longrightarrow> lockedRand_Intn lr n = (Inr 0, lr)"
    by (simp add: lockedRand_Intn_def)
  have 2: "\<exists>v lr'. lockedRand_Intn lr n = (Inr v, lr') \<and> 0 \<le> v \<and> (0 < n \<longrightarrow> v < n)"
    by (simp add: lockedRand_Intn_def rand_Intn_def)
  have 3: "n \<le> 0 \<longrightarrow> fst (rand_Intn (rsrc lr) n) = Inl InvalidArgumentToIntn"
    by (simp add: rand_Intn_def)
  have d: "\<exists>v g. lockedRand_Intn l k = (Inr v, g)" for l k
    by (simp add: lockedRand_Intn_def rand_Intn_def)
  have w: "\<exists>res p'. pick_in_window q = (Inr res, p')" for q
  proof -
    define span where "span = wrap32 (latest q - (if wrap32 (latest q - window q + 1) < 1 then 1
        else wrap32 (latest q - window q + 1)) + 1)"
    obtain v g where "lockedRand_Intn (rng q) span = (Inr v, g)" using d by blast
    then show ?thesis by (simp add: pick_in_window_def Let_def span_def [symmetric])
  qed
  have 4: "\<exists>res p'. pick p now info = (Inr res, p')"
  proof (cases "mode p = ''range''")
    case True
    obtain v g where "lockedRand_Intn (rng p) (wrap32 (to' p - from' p + 1)) = (Inr v, g)"
      using d by blast
    then show ?thesis using True by (simp add: pick_def Let_def)
  next
    case False
    show ?thesis
    proof (cases "latest p = 0 \<or> (0 < refresh p \<and> refresh p \<le> time_Sub now (lastRefresh p))")
      case True
      then show ?thesis
        using w by (cases info) (simp_all add: pick_last_refresh [OF False True])
    next
      case c: False
      show ?thesis using w by (simp add: pick_last_cached [OF False c])
    qed
  qed
  show ?thesis using 1 2 3 4 by blast
qed

theorem lockedRand_Intn_total_witness:
  "lockedRand_Intn rng0 (- 3) = (Inr 0, rng0) \<and> lockedRand_Intn rng0 0 = (Inr 0, rng0)
   \<and> fst (rand_Intn (rsrc rng0) 0) = Inl InvalidArgumentToIntn
   \<and> fst (pick picker_range_one 0 (Inl ''unused'')) = Inr (5, None)
   \<and> fst (pick picker_window_one 1000000000 (Inl ''unused'')) = Inr (1000, None)"
proof -
  have "lockedRand_Intn rng0 (- 3) = (Inr 0, rng0)"
    using lockedRand_Intn_total [of "- 3" rng0, THEN conjunct1] by simp
  moreover have "lockedRand_Intn rng0 0 = (Inr 0, rng0)"
    using lockedRand_Intn_total [of 0 rng0, THEN conjunct1] by simp
  moreover have "fst (rand_Intn (rsrc rng0) 0) = Inl InvalidArgumentToIntn"
    using lockedRand_Intn_total [of 0 rng0, THEN conjunct2, THEN conjunct2, THEN conjunct1] by simp
  moreover have "fst (pick picker_range_one 0 (Inl ''unused'')) = Inr (5, None)"
    by (simp add: pick_def picker_range_one_def Let_def wrap32_def)
  moreover have "fst (pick picker_window_one 1000000000 (Inl ''unused'')) = Inr (1000, None)"
    by (simp add: pick_def picker_window_one_def newBlockPicker_last_def Let_def wrap32_def time_Sub_def)
  ultimately show ?thesis by simp
qed

section \<open>runJobs\<close>

lemma busy_items_recv:
  "w < length ws \<Longrightarrow> ws ! w = Idle \<Longrightarrow>
   mset (busy_items (ws[w := Busy i])) = add_mset i (mset (busy_items ws))"
proof (induction ws arbitrary: w)
  case Nil
  then show ?case by simp
next
  case (Cons a ws)
  then show ?case by (cases w; cases a) simp_all
qed

lemma busy_items_finish:
  "w < length ws \<Longrightarrow> ws ! w = Busy i \<Longrightarrow>
   add_mset i (mset (busy_items (ws[w := Idle]))) = mset (busy_items ws)"
proof (induction ws arbitrary: w)
  case Nil
  then show ?case by simp
next
  case (Cons a ws)
  then show ?case by (cases w; cases a) simp_all
qed

lemma busy_items_exit:
  "w < length ws \<Longrightarrow> ws ! w = Idle \<Longrightarrow> busy_items (ws[w := Done]) = busy_items ws"
proof (induction ws arbitrary: w)
  case Nil
  then show ?case by simp
next
  case (Cons a ws)
  then show ?case by (cases w; cases a) simp_all
qed

lemma busy_items_all_done: "list_all (\<lambda>w. w = Done) ws \<Longrightarrow> busy_items ws = []"
  by (induction ws rule: busy_items.induct) simp_all

lemma busy_items_replicate_idle: "busy_items (replicate k Idle) = []"
  by (induction k) simp_all

lemma set_update_idle: "Done \<in> set (ws[w := Idle]) \<Longrightarrow> Done \<in> set ws"
  by (metis insertE set_update_subset_insert subsetD worker.distinct(3))

lemma set_update_busy: "Done \<in> set (ws[w := Busy i]) \<Longrightarrow> Done \<in> set ws"
  by (metis insertE set_update_subset_insert subsetD worker.distinct(5))

lemma mset_set_upt_Suc: "mset_set {0..<Suc n} = add_mset n (mset_set {0..<n})"
  by (simp add: atLeastLessThanSuc)

lemma jobs_init_inv: "jobs_inv tot (jobs_init tot conc)"
  by (simp add: jobs_inv_def jobs_init_def busy_items_replicate_idle)

lemma jobs_step_workers:
  "jobs_step tot cap a s = Some s' \<Longrightarrow> length (js_workers s') = length (js_workers s)"
  by (cases a) (auto split: if_splits list.splits worker.splits)

lemma jobs_step_inv:
  assumes "jobs_inv tot s" "jobs_step tot cap a s = Some s'"
  shows "jobs_inv tot s'"
proof (cases a)
  case Send
  then show ?thesis using assms by (auto simp: jobs_inv_def mset_set_upt_Suc split: if_splits)
next
  case Close
  then show ?thesis using assms by (auto simp: jobs_inv_def split: if_splits)
next
  case (Recv w)
  then obtain idx rest where c: "js_chan s = idx # rest"
    and w: "w < length (js_workers s)" "js_workers s ! w = Idle"
    and s': "s' = s\<lparr>js_workers := (js_workers s)[w := Busy idx], js_chan := rest\<rparr>"
    using assms(2) by (auto split: if_splits list.splits)
  have "Done \<notin> set (js_workers s)" using assms(1) c by (auto simp: jobs_inv_def)
  then have "Done \<notin> set ((js_workers s)[w := Busy idx])" using set_update_busy by blast
  then show ?thesis
    using assms(1) c w by (simp add: jobs_inv_def s' busy_items_recv)
next
  case (Finish w err d)
  then obtain idx where w: "w < length (js_workers s)" "js_workers s ! w = Busy idx"
    and s': "s' = (if err \<noteq> None
                 then s\<lparr>js_durations := (js_durations s)[idx := - 1], js_errors := js_errors s + 1\<rparr>
                 else s\<lparr>js_durations := (js_durations s)[idx := d], js_successes := js_successes s + 1\<rparr>)
                \<lparr>js_workers := (js_workers s)[w := Idle], js_calls := js_calls s @ [idx]\<rparr>"
    using assms(2) by (auto split: if_splits worker.splits)
  have m: "add_mset idx (mset (busy_items ((js_workers s)[w := Idle]))) = mset (busy_items (js_workers s))"
    using w by (rule busy_items_finish)
  have d: "Done \<in> set ((js_workers s)[w := Idle]) \<Longrightarrow> Done \<in> set (js_workers s)"
    by (rule set_update_idle)
  show ?thesis
    using assms(1) m [symmetric] d by (auto simp: jobs_inv_def s')
next
  case (Exit w)
  then have w: "w < length (js_workers s)" "js_workers s ! w = Idle" "js_chan s = []" "js_closed s"
    and s': "s' = s\<lparr>js_workers := (js_workers s)[w := Done]\<rparr>"
    using assms(2) by (auto split: if_splits)
  show ?thesis
    using assms(1) w by (simp add: jobs_inv_def s' busy_items_exit)
qed

lemma jobs_exec_inv:
  "jobs_inv tot s \<Longrightarrow> jobs_exec tot cap acts s = Some s' \<Longrightarrow>
   jobs_inv tot s' \<and> length (js_workers s') = length (js_workers s)"
proof (induction acts arbitrary: s)
  case Nil
  then show ?case by simp
next
  case (Cons a acts)
  then obtain s1 where s1: "jobs_step tot cap a s = Some s1" "jobs_exec tot cap acts s1 = Some s'"
    by (auto split: option.splits)
  have "jobs_inv tot s1" using Cons.prems(1) s1(1) by (rule jobs_step_inv)
  then have "jobs_inv tot s' \<and> length (js_workers s') = length (js_workers s1)"
    using s1(2) by (rule Cons.IH)
  then show ?case using jobs_step_workers [OF s1(1)] by simp
qed

lemma workerCount_clamp: "int (workerCount tot conc) = max 1 (min conc (int tot))"
  by (simp add: workerCount_def Let_def max_def min_def)

lemma workerCount_pos: "0 < workerCount tot conc"
  using workerCount_clamp [of tot conc] by linarith

lemma jobs_finished_result:
  assumes "jobs_exec tot (workerCount tot conc) acts (jobs_init tot conc) = Some s" "jobs_finished s"
  shows "mset (js_calls s) = mset [0..<tot]" "length (js_durations s) = tot"
    "js_successes s + js_errors s = int tot" "length (js_workers s) = workerCount tot conc"
proof -
  have inv: "jobs_inv tot s" and len: "length (js_workers s) = length (js_workers (jobs_init tot conc))"
    using jobs_exec_inv [OF jobs_init_inv assms(1)] by simp_all
  show w: "length (js_workers s) = workerCount tot conc" using len by (simp add: jobs_init_def)
  then have "js_workers s \<noteq> []" using workerCount_pos [of tot conc] by auto
  then obtain x where "x \<in> set (js_workers s)" by (meson last_in_set)
  then have "Done \<in> set (js_workers s)" using assms(2) by (auto simp: jobs_finished_def list_all_iff)
  then have c: "js_closed s" "js_chan s = []" "js_next_i s = tot" using inv by (auto simp: jobs_inv_def)
  have b: "busy_items (js_workers s) = []" using assms(2) by (simp add: jobs_finished_def busy_items_all_done)
  show m: "mset (js_calls s) = mset [0..<tot]" using inv c b by (simp add: jobs_inv_def)
  show "length (js_durations s) = tot" using inv by (simp add: jobs_inv_def)
  have "length (js_calls s) = tot" using m by (metis length_upt mset_eq_length minus_nat.diff_0)
  then show "js_successes s + js_errors s = int tot" using inv by (simp add: jobs_inv_def)
qed


lemma jobs_exec_append:
  "jobs_exec tot cap (xs @ ys) s =
     (case jobs_exec tot cap xs s of None \<Rightarrow> None | Some s1 \<Rightarrow> jobs_exec tot cap ys s1)"
  by (induction xs arbitrary: s) (auto split: option.splits)

text \<open>Serving: all workers idle, the channel empty and open, \<open>i\<close> indices sent.\<close>

lemma serve_one:
  assumes "js_next_i s = i" "js_chan s = []" "\<not> js_closed s" "js_workers s = replicate k Idle"
    and "i < tot" "0 < k"
  shows "\<exists>s'. jobs_exec tot k [Send, Recv 0, Finish 0 e dd] s = Some s'
           \<and> js_next_i s' = Suc i \<and> js_chan s' = [] \<and> \<not> js_closed s'
           \<and> js_workers s' = replicate k Idle"
proof -
  obtain k' where k: "k = Suc k'" using assms(6) by (cases k) simp_all
  show ?thesis using assms(1-5) by (simp add: k)
qed

lemma serve_all:
  assumes "js_next_i s = i" "js_chan s = []" "\<not> js_closed s" "js_workers s = replicate k Idle"
    and "i \<le> tot" "0 < k"
  shows "\<exists>s'. jobs_exec tot k (concat (map (\<lambda>i. [Send, Recv 0, Finish 0 (err i) (d i)]) [i..<tot])) s = Some s'
           \<and> js_next_i s' = tot \<and> js_chan s' = [] \<and> \<not> js_closed s'
           \<and> js_workers s' = replicate k Idle"
  using assms
proof (induction "tot - i" arbitrary: i s)
  case 0
  then show ?case by simp
next
  case (Suc m)
  then have lt: "i < tot" by simp
  from serve_one [OF Suc.prems(1-4) lt Suc.prems(6), of "err i" "d i"]
  obtain s1 where s1: "jobs_exec tot k [Send, Recv 0, Finish 0 (err i) (d i)] s = Some s1"
    "js_next_i s1 = Suc i" "js_chan s1 = []" "\<not> js_closed s1" "js_workers s1 = replicate k Idle"
    by blast
  have "m = tot - Suc i" using Suc.hyps(2) by simp
  from Suc.hyps(1) [OF this s1(2-5) _ Suc.prems(6)] lt
  obtain s' where s': "jobs_exec tot k (concat (map (\<lambda>i. [Send, Recv 0, Finish 0 (err i) (d i)]) [Suc i..<tot])) s1 = Some s'"
    "js_next_i s' = tot" "js_chan s' = []" "\<not> js_closed s'" "js_workers s' = replicate k Idle"
    by auto
  have "[i..<tot] = i # [Suc i..<tot]" using lt by (rule upt_conv_Cons)
  then have "concat (map (\<lambda>i. [Send, Recv 0, Finish 0 (err i) (d i)]) [i..<tot])
      = [Send, Recv 0, Finish 0 (err i) (d i)] @ concat (map (\<lambda>i. [Send, Recv 0, Finish 0 (err i) (d i)]) [Suc i..<tot])"
    by simp
  then show ?case using s1(1) s' by (simp only: jobs_exec_append) simp
qed

lemma exit_all:
  assumes "js_chan s = []" "js_closed s" "js_workers s = replicate k Idle" "j \<le> k"
  shows "\<exists>s'. jobs_exec tot cap (map Exit [0..<j]) s = Some s'
           \<and> js_chan s' = [] \<and> js_closed s'
           \<and> js_workers s' = replicate j Done @ replicate (k - j) Idle"
  using assms(4)
proof (induction j)
  case 0
  then show ?case using assms(1-3) by simp
next
  case (Suc j)
  then obtain s1 where s1: "jobs_exec tot cap (map Exit [0..<j]) s = Some s1"
    "js_chan s1 = []" "js_closed s1" "js_workers s1 = replicate j Done @ replicate (k - j) Idle"
    by auto
  have r: "replicate (k - j) Idle = Idle # replicate (k - Suc j) Idle"
    using Suc.prems by (cases "k - j") simp_all
  have "(replicate j Done @ replicate (k - j) Idle)[j := Done]
      = replicate (Suc j) Done @ replicate (k - Suc j) Idle"
    unfolding r by (simp add: list_update_append replicate_append_same)
  moreover have "(replicate j Done @ replicate (k - j) Idle) ! j = Idle"
    unfolding r by (simp add: nth_append)
  moreover have "j < length (replicate j Done @ replicate (k - j) Idle)" using Suc.prems by simp
  ultimately have "\<exists>s'. jobs_step tot cap (Exit j) s1 = Some s' \<and> js_chan s' = [] \<and> js_closed s'
      \<and> js_workers s' = replicate (Suc j) Done @ replicate (k - Suc j) Idle"
    using s1(2-4) by simp
  then obtain s' where s': "jobs_step tot cap (Exit j) s1 = Some s'" "js_chan s' = []" "js_closed s'"
    "js_workers s' = replicate (Suc j) Done @ replicate (k - Suc j) Idle"
    by blast
  have "jobs_exec tot cap (map Exit [0..<Suc j]) s = Some s'"
    using s1(1) s'(1) by (simp add: jobs_exec_append)
  then show ?case using s'(2-4) by blast
qed

lemma serial_schedule_runs:
  "\<exists>jr. runJobs tot conc (serial_schedule tot (workerCount tot conc) err d) = Some jr"
proof -
  define k where "k = workerCount tot conc"
  have k: "0 < k" unfolding k_def by (rule workerCount_pos)
  have i: "js_next_i (jobs_init tot conc) = 0" "js_chan (jobs_init tot conc) = []"
    "\<not> js_closed (jobs_init tot conc)" "js_workers (jobs_init tot conc) = replicate k Idle"
    by (simp_all add: jobs_init_def k_def)
  from serve_all [OF i _ k, of tot err d]
  obtain s1 where s1: "jobs_exec tot k (concat (map (\<lambda>i. [Send, Recv 0, Finish 0 (err i) (d i)]) [0..<tot]))
      (jobs_init tot conc) = Some s1"
    "js_next_i s1 = tot" "js_chan s1 = []" "\<not> js_closed s1" "js_workers s1 = replicate k Idle"
    by auto
  define s2 where "s2 = s1\<lparr>js_closed := True\<rparr>"
  have c: "jobs_exec tot k [Close] s1 = Some s2" using s1(2,4) by (simp add: s2_def)
  have "js_chan s2 = []" "js_closed s2" "js_workers s2 = replicate k Idle"
    using s1 by (simp_all add: s2_def)
  from exit_all [OF this, of k tot k]
  obtain s3 where s3: "jobs_exec tot k (map Exit [0..<k]) s2 = Some s3" "js_workers s3 = replicate k Done"
    by auto
  have "jobs_exec tot k (serial_schedule tot k err d) (jobs_init tot conc) = Some s3"
    unfolding serial_schedule_def using s1(1) c s3(1) by (simp only: jobs_exec_append) simp
  moreover have "jobs_finished s3" by (simp add: jobs_finished_def s3(2) list_all_iff)
  ultimately show ?thesis by (simp add: runJobs_def k_def)
qed

text \<open>
  C9. runJobs starts max(1, min(conc, total)) workers; in every complete run each index
  0, ..., total-1 is passed to fn exactly once, the result holds total durations, and
  successes plus errors equal total. Every input has a complete run. For 37 items and a
  requested concurrency of 50 there are 37 workers.
\<close>

theorem runJobs_each_item_once:
  "int (workerCount tot conc) = max 1 (min conc (int tot))
   \<and> workerCount 37 50 = 37
   \<and> (\<exists>acts jr. runJobs tot conc acts = Some jr)
   \<and> (runJobs tot conc acts = Some jr \<longrightarrow>
        (\<exists>s. jobs_exec tot (workerCount tot conc) acts (jobs_init tot conc) = Some s
             \<and> length (js_workers s) = workerCount tot conc
             \<and> mset (js_calls s) = mset [0..<tot])
        \<and> length (durations jr) = tot
        \<and> Success (result jr) + Errors (result jr) = int tot)"
proof -
  have 1: "int (workerCount tot conc) = max 1 (min conc (int tot))" by (rule workerCount_clamp)
  have 2: "workerCount 37 50 = 37" by (simp add: workerCount_def)
  have 3: "\<exists>acts jr. runJobs tot conc acts = Some jr"
    using serial_schedule_runs [of tot conc "\<lambda>i. None" "\<lambda>i. 0"] by blast
  have 4: "(\<exists>s. jobs_exec tot (workerCount tot conc) acts (jobs_init tot conc) = Some s
             \<and> length (js_workers s) = workerCount tot conc
             \<and> mset (js_calls s) = mset [0..<tot])
        \<and> length (durations jr) = tot
        \<and> Success (result jr) + Errors (result jr) = int tot"
    if r: "runJobs tot conc acts = Some jr"
  proof -
    from r obtain s where s: "jobs_exec tot (workerCount tot conc) acts (jobs_init tot conc) = Some s"
      "jobs_finished s"
      and jr: "jr = jobRun_zero\<lparr>result := Result_zero\<lparr>Success := js_successes s, Errors := js_errors s\<rparr>,
                       durations := js_durations s\<rparr>"
      by (auto simp: runJobs_def split: option.splits if_splits)
    note f = jobs_finished_result [OF s]
    show ?thesis using s(1) f by (auto simp: jr)
  qed
  show ?thesis using 1 2 3 4 by blast
qed

theorem runJobs_each_item_once_witness:
  "workerCount 2 5 = 2
   \<and> (\<exists>jr. runJobs 2 5 two_jobs_schedule = Some jr \<and> durations jr = [- 1, 7]
         \<and> Success (result jr) = 1 \<and> Errors (result jr) = 1
         \<and> length (durations jr) = 2 \<and> Success (result jr) + Errors (result jr) = 2)"
proof -
  have w: "workerCount 2 5 = 2" by (simp add: workerCount_def)
  have i: "jobs_init 2 5 =
      \<lparr>js_next_i = 0, js_chan = [], js_closed = False, js_workers = [Idle, Idle],
       js_durations = [0, 0], js_successes = 0, js_errors = 0, js_calls = []\<rparr>"
    unfolding jobs_init_def w by (simp add: numeral_2_eq_2)
  define jr where "jr = jobRun_zero\<lparr>result := Result_zero\<lparr>Success := 1, Errors := 1\<rparr>, durations := [- 1, 7]\<rparr>"
  have r: "runJobs 2 5 two_jobs_schedule = Some jr"
    unfolding runJobs_def w i by (simp add: two_jobs_schedule_def jobs_finished_def jr_def)
  have "length (durations jr) = 2 \<and> Success (result jr) + Errors (result jr) = int 2"
    using runJobs_each_item_once [of 2 5 two_jobs_schedule jr] r by blast
  then show ?thesis using w r by (simp add: jr_def)
qed

section \<open>runTimedJobs\<close>

lemma float64_of_int_0 [simp]: "float64_of_int 0 = 0"
  by (simp add: float64_of_int_def float64_zero)

lemma float64_of_int_1 [simp]: "float64_of_int 1 = 1"
  using float64_of_int_exact [of 1] by simp

lemma float64_3: "float64 3 = 3"
  using float64_of_int_exact [of 3] by (simp add: float64_of_int_def)

lemma float64_half: "float64 (1 / 2) = 1 / 2"
  unfolding float64_def by (subst rnd_pos_small [where k = 53]) (simp_all add: round_half_even_def Let_def)

lemma float64_5_2: "float64 (5 / 2) = 5 / 2"
  unfolding float64_def by (subst rnd_pos_small [where k = 51]) (simp_all add: round_half_even_def Let_def)

lemma float64_7_2: "float64 (7 / 2) = 7 / 2"
  unfolding float64_def by (subst rnd_pos_small [where k = 51]) (simp_all add: round_half_even_def Let_def)

lemma Duration_Seconds_3s: "Duration_Seconds 3000000000 = 3"
  by (simp add: Duration_Seconds_def go_quot_def go_rem_def fadd_def fdiv_def float64_zero float64_3)

lemma Duration_Seconds_half: "Duration_Seconds 500000000 = 1 / 2"
  by (simp add: Duration_Seconds_def go_quot_def go_rem_def fadd_def fdiv_def float64_zero float64_half)

lemma Duration_Seconds_2_5: "Duration_Seconds 2500000000 = 5 / 2"
  by (simp add: Duration_Seconds_def go_quot_def go_rem_def fadd_def fdiv_def float64_half float64_5_2)

lemma Duration_Seconds_3_5: "Duration_Seconds 3500000000 = 7 / 2"
  by (simp add: Duration_Seconds_def go_quot_def go_rem_def fadd_def fdiv_def float64_half float64_7_2)

lemma bucketCount_3s: "bucketCount three_seconds = 3"
  by (simp add: bucketCount_def three_seconds_def Duration_Seconds_3s Ceil_def int_of_float64_def)


lemma sum_list_update_int:
  "i < length xs \<Longrightarrow> sum_list (xs[i := v]) = sum_list xs - xs ! i + (v :: int)"
proof (induction xs arbitrary: i)
  case Nil
  then show ?case by simp
next
  case (Cons x xs)
  then show ?case by (cases i) simp_all
qed

lemma timed_inv_init: "timed_inv D B [] (timed_init B)"
  by (simp add: timed_inv_def timed_init_def succeeded_def failed_def sum_list_replicate)

lemma timed_inv_step:
  assumes "timed_inv D B its st"
  shows "timed_inv D B (its @ [it]) (worker_iteration D B st it)"
proof (cases "executed D it")
  case False
  then show ?thesis
    using assms by (simp add: timed_inv_def worker_iteration_def succeeded_def failed_def executed_def)
next
  case ex: True
  show ?thesis
  proof (cases "in_bucket B it")
    case ib: True
    then have n: "nat (it_sec it) < nat B" "0 \<le> it_sec it" by (simp_all add: in_bucket_def)
    have e: "\<And>b. (it_sec it = int b) = (b = nat (it_sec it))" using n(2) by auto
    show ?thesis
    proof (cases "it_err it = None")
      case True
      then show ?thesis
        using assms ex ib n
        by (simp add: timed_inv_def worker_iteration_def Let_def succeeded_def failed_def
            executed_def in_bucket_def sum_list_update_int nth_list_update e)
    next
      case False
      then show ?thesis
        using assms ex ib n
        by (simp add: timed_inv_def worker_iteration_def Let_def succeeded_def failed_def
            executed_def in_bucket_def sum_list_update_int nth_list_update e)
    qed
  next
    case nb: False
    then have e: "\<And>b. b < nat B \<Longrightarrow> it_sec it \<noteq> int b" by (auto simp: in_bucket_def)
    show ?thesis
    proof (cases "it_err it = None")
      case True
      then show ?thesis
        using assms ex nb e
        by (auto simp: timed_inv_def worker_iteration_def Let_def succeeded_def failed_def
            executed_def in_bucket_def)
    next
      case False
      then show ?thesis
        using assms ex nb e
        by (auto simp: timed_inv_def worker_iteration_def Let_def succeeded_def failed_def
            executed_def in_bucket_def)
    qed
  qed
qed

lemma timed_inv_fold:
  "timed_inv D B its (fold (\<lambda>it st. worker_iteration D B st it) its (timed_init B))"
proof (induction its rule: rev_induct)
  case Nil
  then show ?case by (simp add: timed_inv_init)
next
  case (snoc it its)
  then show ?case by (simp add: timed_inv_step)
qed

lemma timed_final_inv: "timed_inv D (bucketCount D) its (timed_final D its)"
  unfolding timed_final_def by (rule timed_inv_fold)


lemma bucketCount_pos: "1 \<le> bucketCount D"
  by (simp add: bucketCount_def Let_def)

lemma length_filter_split:
  "int (length (filter P xs)) = int (length xs) - int (length (filter (\<lambda>x. \<not> P x) xs))"
  using sum_length_filter_compl [of P xs] by simp

lemma it_sec_run_3s:
  "it_sec \<lparr>it_checked = 0, it_err = None, it_d = 500, it_since = 500000000\<rparr> = 0"
  "it_sec \<lparr>it_checked = 2000000000, it_err = Some ''EOF'', it_d = 500, it_since = 2500000000\<rparr> = 2"
  "it_sec late_call = 3"
  by (simp_all add: it_sec_def late_call_def Duration_Seconds_half Duration_Seconds_2_5
      Duration_Seconds_3_5 int_of_float64_def)

lemma timed_final_run_3s:
  "timed_final three_seconds run_3s =
     \<lparr>ts_successes = 2, ts_errors = 1, ts_idx = 3, ts_perSec = [[500], [], []],
      ts_durations = [500, - 1, 600], ts_okCounts = [1, 0, 0], ts_errCounts = [0, 0, 1]\<rparr>"
  unfolding timed_final_def bucketCount_3s run_3s_def
  by (simp add: worker_iteration_def it_sec_run_3s timed_init_def Let_def numeral_3_eq_3)
    (simp add: late_call_def three_seconds_def)

text \<open>
  C1. In runTimedJobs over a non-empty item pool (itemCount > 0), an operation that
  completes during second s of the run, with 0 <= s < buckets, is counted in bucket s. An
  operation that completes later (it was in flight at the deadline) is counted in the run's
  totals and in no bucket: the sum of the per-bucket success counts is the total success
  count minus the number of successes that completed outside the buckets, and likewise for
  the errors. Over an empty pool (itemCount <= 0) nothing is executed: the run reports one
  error, no success, no sample and no series.
\<close>

theorem runTimedJobs_buckets:
  "(0 < itemCount \<longrightarrow>
      1 \<le> bucketCount duration
      \<and> length (seriesRPS (runTimedJobs itemCount conc duration startMs its)) = nat (bucketCount duration)
      \<and> seriesRPS (runTimedJobs itemCount conc duration startMs its)
          = map float64_of_int (ts_okCounts (timed_final duration its))
      \<and> seriesErr (runTimedJobs itemCount conc duration startMs its)
          = map float64_of_int (ts_errCounts (timed_final duration its))
      \<and> (\<forall>b < nat (bucketCount duration).
            ts_okCounts (timed_final duration its) ! b
              = int (length (filter (\<lambda>it. it_sec it = int b) (succeeded duration its)))
            \<and> ts_errCounts (timed_final duration its) ! b
              = int (length (filter (\<lambda>it. it_sec it = int b) (failed duration its))))
      \<and> Success (result (runTimedJobs itemCount conc duration startMs its))
          = int (length (succeeded duration its))
      \<and> Errors (result (runTimedJobs itemCount conc duration startMs its))
          = int (length (failed duration its))
      \<and> sum_list (ts_okCounts (timed_final duration its))
          = Success (result (runTimedJobs itemCount conc duration startMs its))
            - int (length (filter (\<lambda>it. \<not> in_bucket (bucketCount duration) it) (succeeded duration its)))
      \<and> sum_list (ts_errCounts (timed_final duration its))
          = Errors (result (runTimedJobs itemCount conc duration startMs its))
            - int (length (filter (\<lambda>it. \<not> in_bucket (bucketCount duration) it) (failed duration its))))
   \<and> (itemCount \<le> 0 \<longrightarrow>
        Success (result (runTimedJobs itemCount conc duration startMs its)) = 0
        \<and> Errors (result (runTimedJobs itemCount conc duration startMs its)) = 1
        \<and> durations (runTimedJobs itemCount conc duration startMs its) = []
        \<and> seriesSec (runTimedJobs itemCount conc duration startMs its) = []
        \<and> seriesRPS (runTimedJobs itemCount conc duration startMs its) = []
        \<and> seriesErr (runTimedJobs itemCount conc duration startMs its) = [])"
proof (intro conjI impI)
  assume empty: "itemCount \<le> 0"
  then have e: "runTimedJobs itemCount conc duration startMs its
      = jobRun_zero\<lparr>result := Result_zero\<lparr>Errors := 1\<rparr>\<rparr>"
    by (simp add: runTimedJobs_def)
  show "Success (result (runTimedJobs itemCount conc duration startMs its)) = 0"
    "Errors (result (runTimedJobs itemCount conc duration startMs its)) = 1"
    "durations (runTimedJobs itemCount conc duration startMs its) = []"
    "seriesSec (runTimedJobs itemCount conc duration startMs its) = []"
    "seriesRPS (runTimedJobs itemCount conc duration startMs its) = []"
    "seriesErr (runTimedJobs itemCount conc duration startMs its) = []"
    unfolding e by (simp_all add: jobRun_zero_def Result_zero_def)
next
  assume pool: "0 < itemCount"
  define st where "st = timed_final duration its"
  define B where "B = bucketCount duration"
  have inv: "timed_inv duration B its st" unfolding st_def B_def by (rule timed_final_inv)
  have B1: "1 \<le> B" unfolding B_def by (rule bucketCount_pos)
  then have ne: "ts_okCounts st \<noteq> []" "ts_errCounts st \<noteq> []"
    using inv by (auto simp: timed_inv_def)
  have jr: "runTimedJobs itemCount conc duration startMs its =
      (case percentileSeries (ts_perSec st) of
         (p50, p90, p95, p99) \<Rightarrow>
           \<lparr>result = Result_zero\<lparr>Success := ts_successes st, Errors := ts_errors st\<rparr>,
            durations = ts_durations st,
            seriesSec = map (\<lambda>i. int i + 1) [0..<nat B],
            seriesRPS = countsToFloat64 (ts_okCounts st),
            seriesErr = countsToFloat64 (ts_errCounts st),
            seriesP50 = p50, seriesP90 = p90, seriesP95 = p95, seriesP99 = p99,
            seriesStart = startMs\<rparr>)"
    using pool by (simp add: runTimedJobs_def Let_def st_def B_def)
  have rps: "seriesRPS (runTimedJobs itemCount conc duration startMs its) = map float64_of_int (ts_okCounts st)"
    and err: "seriesErr (runTimedJobs itemCount conc duration startMs its) = map float64_of_int (ts_errCounts st)"
    and suc: "Success (result (runTimedJobs itemCount conc duration startMs its)) = ts_successes st"
    and ers: "Errors (result (runTimedJobs itemCount conc duration startMs its)) = ts_errors st"
    unfolding jr using ne by (simp_all add: countsToFloat64_def split: prod.splits)
  have ok_sum: "sum_list (ts_okCounts st)
      = ts_successes st - int (length (filter (\<lambda>it. \<not> in_bucket B it) (succeeded duration its)))"
    using inv length_filter_split [of "in_bucket B" "succeeded duration its"]
    by (simp add: timed_inv_def)
  have err_sum: "sum_list (ts_errCounts st)
      = ts_errors st - int (length (filter (\<lambda>it. \<not> in_bucket B it) (failed duration its)))"
    using inv length_filter_split [of "in_bucket B" "failed duration its"]
    by (simp add: timed_inv_def)
  show "1 \<le> bucketCount duration" by (rule bucketCount_pos)
  show "length (seriesRPS (runTimedJobs itemCount conc duration startMs its)) = nat (bucketCount duration)"
    unfolding rps using inv by (simp add: timed_inv_def B_def)
  show "seriesRPS (runTimedJobs itemCount conc duration startMs its)
      = map float64_of_int (ts_okCounts (timed_final duration its))"
    unfolding rps st_def by (rule refl)
  show "seriesErr (runTimedJobs itemCount conc duration startMs its)
      = map float64_of_int (ts_errCounts (timed_final duration its))"
    unfolding err st_def by (rule refl)
  show "\<forall>b < nat (bucketCount duration).
      ts_okCounts (timed_final duration its) ! b
        = int (length (filter (\<lambda>it. it_sec it = int b) (succeeded duration its)))
      \<and> ts_errCounts (timed_final duration its) ! b
        = int (length (filter (\<lambda>it. it_sec it = int b) (failed duration its)))"
    using inv unfolding st_def B_def by (simp add: timed_inv_def)
  show "Success (result (runTimedJobs itemCount conc duration startMs its))
      = int (length (succeeded duration its))"
    unfolding suc using inv by (simp add: timed_inv_def)
  show "Errors (result (runTimedJobs itemCount conc duration startMs its))
      = int (length (failed duration its))"
    unfolding ers using inv by (simp add: timed_inv_def)
  show "sum_list (ts_okCounts (timed_final duration its))
      = Success (result (runTimedJobs itemCount conc duration startMs its))
        - int (length (filter (\<lambda>it. \<not> in_bucket (bucketCount duration) it) (succeeded duration its)))"
    unfolding suc using ok_sum unfolding st_def B_def by simp
  show "sum_list (ts_errCounts (timed_final duration its))
      = Errors (result (runTimedJobs itemCount conc duration startMs its))
        - int (length (filter (\<lambda>it. \<not> in_bucket (bucketCount duration) it) (failed duration its)))"
    unfolding ers using err_sum unfolding st_def B_def by simp
qed

theorem runTimedJobs_buckets_witness:
  "bucketCount three_seconds = 3
   \<and> seriesRPS (runTimedJobs 1 1 three_seconds 0 run_3s) = [1, 0, 0]
   \<and> seriesErr (runTimedJobs 1 1 three_seconds 0 run_3s) = [0, 0, 1]
   \<and> Success (result (runTimedJobs 1 1 three_seconds 0 run_3s)) = 2
   \<and> Errors (result (runTimedJobs 1 1 three_seconds 0 run_3s)) = 1
   \<and> filter (\<lambda>it. \<not> in_bucket 3 it) (succeeded three_seconds run_3s) = [late_call]
   \<and> sum_list (ts_okCounts (timed_final three_seconds run_3s)) = 2 - 1
   \<and> Success (result (runTimedJobs 0 1 three_seconds 0 run_3s)) = 0
   \<and> Errors (result (runTimedJobs 0 1 three_seconds 0 run_3s)) = 1
   \<and> seriesRPS (runTimedJobs 0 1 three_seconds 0 run_3s) = []"
proof -
  have s: "succeeded three_seconds run_3s =
      [\<lparr>it_checked = 0, it_err = None, it_d = 500, it_since = 500000000\<rparr>, late_call]"
    by (simp add: succeeded_def run_3s_def executed_def three_seconds_def late_call_def)
  have l: "filter (\<lambda>it. \<not> in_bucket 3 it) (succeeded three_seconds run_3s) = [late_call]"
    unfolding s by (simp add: in_bucket_def it_sec_run_3s)
  have f: "length (failed three_seconds run_3s) = 1"
    by (simp add: failed_def run_3s_def executed_def three_seconds_def late_call_def)
  have p: "(0 :: int) < 1" by simp
  note t = runTimedJobs_buckets [of 1 three_seconds 1 0 run_3s, THEN conjunct1, THEN mp, OF p,
      unfolded bucketCount_3s l]
  have z: "(0 :: int) \<le> 0" by simp
  note e = runTimedJobs_buckets [of 0 three_seconds 1 0 run_3s, THEN conjunct2, THEN mp, OF z]
  show ?thesis
    using t e by (simp add: bucketCount_3s l f timed_final_run_3s)
qed

text \<open>
  C1 as stated clamps the bucket index. There is no clamping: the call of \<open>late_call\<close>
  started before the deadline of the 3 s run and returned in the fourth second. It is one of
  the two successes, and no bucket has it.
\<close>

theorem runTimedJobs_buckets_counterexample:
  "executed three_seconds late_call \<and> it_err late_call = None \<and> it_sec late_call = 3
   \<and> ts_successes (timed_final three_seconds run_3s) = 2
   \<and> ts_okCounts (timed_final three_seconds run_3s) = [1, 0, 0]
   \<and> sum_list (ts_okCounts (timed_final three_seconds run_3s))
       \<noteq> ts_successes (timed_final three_seconds run_3s)"
  by (simp add: timed_final_run_3s it_sec_run_3s) (simp add: executed_def late_call_def three_seconds_def)

section \<open>Error classification\<close>

lemma occurs_in_iff: "occurs_in sub v \<longleftrightarrow> (\<exists>i \<le> length v. take (length sub) (drop i v) = sub)"
  unfolding occurs_in_def list_ex_iff set_upt
  by (auto simp: less_Suc_eq_le)

lemma Contains_occurs_in: "Contains v sub = occurs_in sub v"
proof (induction v)
  case Nil
  then show ?case by (auto simp: occurs_in_iff)
next
  case (Cons c v)
  have "occurs_in sub (c # v) \<longleftrightarrow> HasPrefix (c # v) sub \<or> occurs_in sub v"
  proof
    assume "occurs_in sub (c # v)"
    then obtain i where i: "i \<le> length (c # v)" "take (length sub) (drop i (c # v)) = sub"
      by (auto simp: occurs_in_iff)
    show "HasPrefix (c # v) sub \<or> occurs_in sub v"
    proof (cases i)
      case 0
      then show ?thesis using i by (simp add: HasPrefix_def)
    next
      case (Suc j)
      then have "j \<le> length v" "take (length sub) (drop j v) = sub" using i by simp_all
      then show ?thesis by (auto simp: occurs_in_iff)
    qed
  next
    assume "HasPrefix (c # v) sub \<or> occurs_in sub v"
    then show "occurs_in sub (c # v)"
    proof
      assume "HasPrefix (c # v) sub"
      then have "take (length sub) (drop 0 (c # v)) = sub" by (simp add: HasPrefix_def)
      then show ?thesis unfolding occurs_in_iff by blast
    next
      assume "occurs_in sub v"
      then obtain j where "j \<le> length v" "take (length sub) (drop j v) = sub"
        by (auto simp: occurs_in_iff)
      then have "Suc j \<le> length (c # v)" "take (length sub) (drop (Suc j) (c # v)) = sub" by simp_all
      then show ?thesis unfolding occurs_in_iff by blast
    qed
  qed
  then show ?case using Cons by simp
qed

lemma classifyError_refines: "classifyError s = classify_spec s"
  by (simp add: classifyError_def classify_spec_def taxonomy_def Let_def Contains_occurs_in)

lemma classifyError_examples:
  "classifyError ''context deadline exceeded'' = ''timeout''"
  "classifyError ''EOF'' = ''eof''"
  "classifyError [] = ''unknown''"
  "classifyError ''  Read: Connection RESET by peer '' = ''conn_reset''"
  "classifyError ''unexpected EOF: timeout'' = ''timeout''"
  "classifyError ''something else'' = ''other''"
  by code_simp+

lemma first_match_codes: "first_match v t \<in> set (map fst t @ [''other''])"
  by (induction t) force+

text \<open>
  C7. classifyError is the first-match classification over the taxonomy, on the lower-cased
  and trimmed message: timeout, unknown_query, conn_reset, broken_pipe, eof, canceled,
  not_found in this order, other when no phrase occurs, unknown when the message is empty
  after trimming. Its result is always one of these nine codes.
\<close>

theorem classifyError_taxonomy:
  "classifyError s = classify_spec s
   \<and> map fst taxonomy = [''timeout'', ''unknown_query'', ''conn_reset'', ''broken_pipe'', ''eof'',
        ''canceled'', ''not_found'']
   \<and> classifyError s \<in> set (map fst taxonomy @ [''other'', ''unknown''])
   \<and> (ToLower (TrimSpace s) = [] \<longrightarrow> classifyError s = ''unknown'')
   \<and> (ToLower (TrimSpace s) \<noteq> []
        \<and> \<not> list_ex (\<lambda>p. occurs_in p (ToLower (TrimSpace s))) (concat (map snd taxonomy))
        \<longrightarrow> classifyError s = ''other'')
   \<and> classifyError ''context deadline exceeded'' = ''timeout''
   \<and> classifyError ''EOF'' = ''eof''
   \<and> classifyError [] = ''unknown''"
proof -
  have 1: "classifyError s = classify_spec s" by (rule classifyError_refines)
  have 2: "map fst taxonomy = [''timeout'', ''unknown_query'', ''conn_reset'', ''broken_pipe'', ''eof'',
        ''canceled'', ''not_found'']"
    by (simp add: taxonomy_def)
  have 3: "classifyError s \<in> set (map fst taxonomy @ [''other'', ''unknown''])"
    unfolding 1 classify_spec_def Let_def
    using first_match_codes [of "ToLower (TrimSpace s)" taxonomy] by auto
  have 4: "ToLower (TrimSpace s) = [] \<longrightarrow> classifyError s = ''unknown''"
    by (simp add: classifyError_def Let_def)
  have 5: "ToLower (TrimSpace s) \<noteq> []
        \<and> \<not> list_ex (\<lambda>p. occurs_in p (ToLower (TrimSpace s))) (concat (map snd taxonomy))
        \<longrightarrow> classifyError s = ''other''"
    unfolding 1 classify_spec_def Let_def by (simp add: taxonomy_def)
  show ?thesis using 1 2 3 4 5 classifyError_examples(1-3) by blast
qed

theorem classifyError_taxonomy_witness:
  "classifyError ''something else'' = ''other''
   \<and> classify_spec ''something else'' = ''other''
   \<and> classifyError ''   '' = ''unknown''
   \<and> classify_spec ''  Read: Connection RESET by peer '' = ''conn_reset''
   \<and> classify_spec ''unexpected EOF: timeout'' = ''timeout''"
proof -
  have a: "ToLower (TrimSpace ''something else'') = ''something else''" by code_simp
  have b: "\<not> list_ex (\<lambda>p. occurs_in p ''something else'') (concat (map snd taxonomy))" by code_simp
  have o: "classifyError ''something else'' = ''other''"
    using classifyError_taxonomy [of "''something else''"] a b
    by (metis list.distinct(1))
  have "classify_spec ''something else'' = ''other''"
    using classifyError_taxonomy [of "''something else''", THEN conjunct1] o by simp
  moreover have "ToLower (TrimSpace ''   '') = []" by code_simp
  then have "classifyError ''   '' = ''unknown''"
    using classifyError_taxonomy [of "''   ''"] by blast
  moreover have "classify_spec ''  Read: Connection RESET by peer '' = ''conn_reset''"
    using classifyError_taxonomy [of "''  Read: Connection RESET by peer ''", THEN conjunct1]
      classifyError_examples(4)
    by simp
  moreover have "classify_spec ''unexpected EOF: timeout'' = ''timeout''"
    using classifyError_taxonomy [of "''unexpected EOF: timeout''", THEN conjunct1]
      classifyError_examples(5)
    by simp
  ultimately show ?thesis using o by simp
qed

section \<open>Downsampling\<close>

lemma float_quotient_ceiling:
  fixes N M :: int
  assumes "0 < M" "M < N" "N < 2 ^ 53"
  shows "int_of_float64 (Ceil (fdiv (float64_of_int N) (float64_of_int M)))
           = \<lceil>real_of_int N / real_of_int M\<rceil>"
proof -
  define j where "j = N div M"
  define r where "r = N mod M"
  define q where "q = real_of_int N / real_of_int M"
  have N: "N = M * j + r" by (simp add: j_def r_def)
  have r: "0 \<le> r" "r < M" using assms(1) by (simp_all add: r_def)
  have j0: "0 \<le> j" using assms by (simp add: j_def pos_imp_zdiv_nonneg_iff)
  have "j * 1 \<le> j * M" using j0 assms(1) by (intro mult_left_mono) simp_all
  then have jN: "j \<le> N" using N r by (simp add: mult.commute)
  have Mr: "(0 :: real) < of_int M" using assms(1) by simp
  have "real_of_int N = of_int M * of_int j + of_int r" using N by (metis of_int_add of_int_mult)
  then have q: "q = of_int j + of_int r / of_int M"
    using Mr by (simp add: q_def field_simps)
  have fN: "float64_of_int N = of_int N" using assms by (intro float64_of_int_exact) simp
  have fM: "float64_of_int M = of_int M" using assms by (intro float64_of_int_exact) simp
  have "0 \<le> q" using assms by (simp add: q_def)
  then have fd: "fdiv (float64_of_int N) (float64_of_int M) = rnd_pos q"
    by (simp add: fdiv_def fN fM float64_nonneg_eq q_def)
  have "\<lceil>rnd_pos q\<rceil> = \<lceil>q\<rceil>"
  proof (cases "r = 0")
    case True
    then have "q = of_int j" using q by simp
    moreover have "rnd_pos (of_int j) = of_int j" using j0 jN assms(3) by (intro rnd_pos_of_int) simp_all
    ultimately show ?thesis by simp
  next
    case False
    then have r1: "1 \<le> r" using r by simp
    have frac: "0 < real_of_int r / of_int M" "real_of_int r / of_int M < 1"
      using r1 r Mr by simp_all
    have "\<lceil>rnd_pos q\<rceil> = j + 1"
    proof (rule ceil_rnd_pos_between)
      show "0 \<le> j" by (rule j0)
      show "j + 1 \<le> 2 ^ 53" using jN assms(3) by simp
      show "of_int j < q" using q frac by simp
      show "q \<le> of_int j + 1" using q frac by simp
      have "j * M \<le> N" using N r by (simp add: mult.commute)
      then have "j * M < 2 ^ 53 * r" using assms(3) r1
        by (smt (verit) mult_le_cancel_left1 zero_less_power)
      then have "real_of_int (j * M) < real_of_int (2 ^ 53 * r)" by (simp only: of_int_less_iff)
      then have "real_of_int j / 2 ^ 53 < real_of_int r / of_int M"
        using Mr by (simp add: field_simps)
      then show "real_of_int j / 2 ^ 53 < q - of_int j" using q by simp
    qed
    moreover have "\<lceil>q\<rceil> = j + 1" using q frac by (intro ceiling_unique) simp_all
    ultimately show ?thesis by simp
  qed
  then show ?thesis by (simp add: fd Ceil_def int_of_float64_of_int q_def)
qed

lemma sampleIndices_loop_closed:
  "0 < step \<Longrightarrow>
   sampleIndices_loop i n step
     = map (\<lambda>k. i + int k * step) [0..<nat \<lceil>real_of_int (n - i) / real_of_int step\<rceil>]"
proof (induction i n step rule: sampleIndices_loop.induct)
  case (1 i n step)
  have sr: "(0 :: real) < of_int step" using "1.prems" by simp
  show ?case
  proof (cases "i < n")
    case False
    then have "real_of_int (n - i) / real_of_int step \<le> 0"
      using sr by (simp add: divide_le_0_iff)
    then have "\<lceil>real_of_int (n - i) / real_of_int step\<rceil> \<le> 0" by (simp add: ceiling_le_iff)
    then show ?thesis using False by (subst sampleIndices_loop.simps) simp
  next
    case True
    define c where "c = \<lceil>real_of_int (n - (i + step)) / real_of_int step\<rceil>"
    have "real_of_int (n - i) / real_of_int step = real_of_int (n - (i + step)) / real_of_int step + 1"
      using sr by (simp add: field_simps)
    then have c1: "\<lceil>real_of_int (n - i) / real_of_int step\<rceil> = c + 1" by (simp add: c_def)
    have "0 < real_of_int (n - i) / real_of_int step" using True sr by simp
    then have "0 < c + 1" using c1 by (metis ceiling_less_iff not_le of_int_0 zero_less_ceiling)
    then have c0: "0 \<le> c" by simp
    have n: "nat (c + 1) = Suc (nat c)" using c0 by simp
    have ih: "sampleIndices_loop (i + step) n step = map (\<lambda>k. i + step + int k * step) [0..<nat c]"
      using "1.IH" True "1.prems" by (simp add: c_def)
    have m: "map (\<lambda>k. i + int k * step) [0..<Suc (nat c)]
        = i # map (\<lambda>k. i + step + int k * step) [0..<nat c]"
      by (simp add: upt_conv_Cons map_Suc_upt [symmetric] algebra_simps del: upt_Suc)
    have lhs: "sampleIndices_loop i n step = i # sampleIndices_loop (i + step) n step"
      using True "1.prems" by (subst sampleIndices_loop.simps) simp
    show ?thesis unfolding c1 n lhs ih by (rule m [symmetric])
  qed
qed

text \<open>The multiples of a positive step below \<open>N\<close>.\<close>

lemma multiples_props:
  fixes N step :: int
  assumes "0 < N" "0 < step"
  defines "kept \<equiv> map (\<lambda>k. int k * step) [0..<nat \<lceil>real_of_int N / real_of_int step\<rceil>]"
  shows "kept \<noteq> []" "hd kept = 0" "sorted_wrt (<) kept" "last kept < N" "0 \<le> last kept"
    "int (length kept) = \<lceil>real_of_int N / real_of_int step\<rceil>"
proof -
  define c where "c = \<lceil>real_of_int N / real_of_int step\<rceil>"
  have sr: "(0 :: real) < of_int step" using assms(2) by simp
  have "0 < real_of_int N / real_of_int step" using assms by simp
  then have c1: "1 \<le> c" unfolding c_def by (simp add: Suc_le_eq)
  then obtain c' where c': "nat c = Suc c'" by (cases "nat c") simp_all
  have k: "kept = map (\<lambda>k. int k * step) [0..<nat c]" by (simp add: kept_def c_def)
  show ne: "kept \<noteq> []" by (simp add: k c')
  show "hd kept = 0" unfolding k c' by (simp add: upt_conv_Cons del: upt_Suc)
  show "sorted_wrt (<) kept"
    unfolding k using assms(2) by (simp add: sorted_wrt_iff_nth_less)
  have l: "last kept = int c' * step" unfolding k c' by simp
  have "real_of_int c - 1 < real_of_int N / real_of_int step"
    unfolding c_def by linarith
  then have "(real_of_int c - 1) * real_of_int step < real_of_int N"
    using sr by (simp add: field_simps)
  moreover have "real_of_int c - 1 = real c'" using c' c1 by linarith
  ultimately have "real_of_int (int c' * step) < real_of_int N" by simp
  then show "last kept < N" unfolding l by (simp only: of_int_less_iff)
  show "0 \<le> last kept" unfolding l using assms(2) by simp
  show "int (length kept) = \<lceil>real_of_int N / real_of_int step\<rceil>"
    using c1 by (simp add: k c_def)
qed

lemma sorted_wrt_le_last:
  fixes xs :: "int list"
  shows "sorted_wrt (<) xs \<Longrightarrow> x \<in> set xs \<Longrightarrow> x \<le> last xs"
proof (induction xs)
  case Nil
  then show ?case by simp
next
  case (Cons a xs)
  show ?case
  proof (cases "xs = []")
    case True
    then show ?thesis using Cons.prems by simp
  next
    case False
    then have l: "last (a # xs) = last xs" "last xs \<in> set xs" by simp_all
    show ?thesis
    proof (cases "x = a")
      case True
      then show ?thesis using Cons.prems(1) l by auto
    next
      case False
      then show ?thesis using Cons l by simp
    qed
  qed
qed

lemma sampleIndices_large:
  fixes N M :: int
  assumes "0 < M" "M < N" "N < 2 ^ 53"
  shows "sampleIndices N M = downsample_spec N M"
    and "hd (sampleIndices N M) = 0"
    and "last (sampleIndices N M) = N - 1"
    and "sorted_wrt (<) (sampleIndices N M)"
    and "int (length (sampleIndices N M)) \<le> M + 1"
proof -
  define step where "step = \<lceil>real_of_int N / real_of_int M\<rceil>"
  define kept where "kept = map (\<lambda>k. int k * step) [0..<nat \<lceil>real_of_int N / real_of_int step\<rceil>]"
  have Mr: "(0 :: real) < of_int M" and Nr: "(0 :: real) < of_int N" using assms by simp_all
  have "1 < real_of_int N / real_of_int M" using assms by simp
  then have s2: "1 < step" unfolding step_def by (simp add: less_ceiling_iff)
  then have s0: "0 < step" by simp
  have N0: "0 < N" using assms by simp
  note mp = multiples_props [OF N0 s0, folded kept_def]
  have f: "int_of_float64 (Ceil (fdiv (float64_of_int N) (float64_of_int M))) = step"
    unfolding step_def using assms by (rule float_quotient_ceiling)
  have loop: "sampleIndices_loop 0 N step = kept"
    using sampleIndices_loop_closed [OF s0, of 0 N] by (simp add: kept_def)
  have nl: "kept ! (length kept - 1) = last kept" using mp(1) by (simp add: last_conv_nth)
  have nl': "kept ! (length kept - Suc 0) = last kept" using nl by simp
  have si: "sampleIndices N M = (if last kept \<noteq> N - 1 then kept @ [N - 1] else kept)"
    using assms s2 by (simp add: sampleIndices_def f Let_def loop nl')
  show "sampleIndices N M = downsample_spec N M"
    unfolding si downsample_spec_def Let_def step_def [symmetric] kept_def [symmetric] by simp
  show "hd (sampleIndices N M) = 0" unfolding si using mp(1,2) by simp
  show "last (sampleIndices N M) = N - 1" unfolding si by simp
  show "sorted_wrt (<) (sampleIndices N M)"
  proof (cases "last kept = N - 1")
    case True
    then show ?thesis unfolding si using mp(3) by simp
  next
    case False
    then have lt: "last kept < N - 1" using mp(4) by simp
    have "x < N - 1" if "x \<in> set kept" for x
      using sorted_wrt_le_last [OF mp(3) that] lt by simp
    then show ?thesis unfolding si using False mp(3) by (simp add: sorted_wrt_append)
  qed
  have "real_of_int N / real_of_int M \<le> real_of_int step" unfolding step_def by simp
  then have "real_of_int N \<le> real_of_int step * real_of_int M" using Mr by (simp add: field_simps)
  then have "real_of_int N / real_of_int step \<le> real_of_int M"
    using s0 by (simp add: field_simps)
  then have "\<lceil>real_of_int N / real_of_int step\<rceil> \<le> M" by (simp add: ceiling_le_iff)
  then have "int (length kept) \<le> M" using mp(6) by simp
  then show "int (length (sampleIndices N M)) \<le> M + 1" unfolding si by simp
qed

lemma sampleInts_identity: "sampleInts src (map int [0..<length src]) = src"
proof (cases "src = []")
  case True
  then show ?thesis by (simp add: sampleInts_def)
next
  case False
  have "filter (\<lambda>idx. 0 \<le> idx \<and> idx < int (length src)) (map int [0..<length src]) = map int [0..<length src]"
    by (simp add: filter_id_conv)
  then show ?thesis
    using False by (simp add: sampleInts_def o_def map_nth)
qed

lemma downsampleResults_unchanged:
  "maxPoints \<le> 0 \<or> list_all (\<lambda>r. int (length (SeriesSec r)) \<le> maxPoints) results
     \<Longrightarrow> downsampleResults results maxPoints = results"
proof -
  assume a: "maxPoints \<le> 0 \<or> list_all (\<lambda>r. int (length (SeriesSec r)) \<le> maxPoints) results"
  show ?thesis
  proof (cases "maxPoints \<le> 0")
    case True
    then show ?thesis by (simp add: downsampleResults_def)
  next
    case False
    then have "list_all (\<lambda>r. int (length (SeriesSec r)) \<le> maxPoints) results" using a by simp
    then have "map (\<lambda>r. if length (SeriesSec r) = 0 \<or> int (length (SeriesSec r)) \<le> maxPoints then r
        else (let idxs = sampleIndices (int (length (SeriesSec r))) maxPoints
              in r\<lparr>SeriesSec := sampleInts (SeriesSec r) idxs,
                   SeriesRPS := sampleFloats (SeriesRPS r) idxs,
                   SeriesErr := sampleFloats (SeriesErr r) idxs,
                   SeriesP50 := sampleFloats (SeriesP50 r) idxs,
                   SeriesP90 := sampleFloats (SeriesP90 r) idxs,
                   SeriesP95 := sampleFloats (SeriesP95 r) idxs,
                   SeriesP99 := sampleFloats (SeriesP99 r) idxs\<rparr>)) results = map (\<lambda>r. r) results"
      by (intro map_cong) (auto simp: list_all_iff)
    then show ?thesis by (simp add: downsampleResults_def)
  qed
qed

lemma sampleIndices_small:
  "0 \<le> N \<Longrightarrow> N \<le> M \<or> M \<le> 0 \<Longrightarrow> sampleIndices N M = map int [0..<nat N]"
  by (auto simp: sampleIndices_def)

lemma downsample_spec_10_3: "downsample_spec 10 3 = [0, 4, 8, 9]"
  by (simp add: downsample_spec_def Let_def numeral_3_eq_3)

lemma sorted_wrt_hd_le:
  "sorted_wrt (<) xs \<Longrightarrow> x \<in> set xs \<Longrightarrow> hd xs \<le> (x :: int)"
  by (cases xs) auto

lemma sampleIndices_in_range:
  fixes N M :: int
  assumes "0 < M" "M < N" "N < 2 ^ 53" "k \<in> set (sampleIndices N M)"
  shows "0 \<le> k \<and> k < N"
proof -
  note l = sampleIndices_large [OF assms(1-3)]
  have "hd (sampleIndices N M) \<le> k" using l(4) assms(4) by (rule sorted_wrt_hd_le)
  moreover have "k \<le> last (sampleIndices N M)" using l(4) assms(4) by (rule sorted_wrt_le_last)
  ultimately show ?thesis using l(2,3) by simp
qed

lemma sampleInts_in_range:
  assumes "idxs \<noteq> []" "\<And>k. k \<in> set idxs \<Longrightarrow> 0 \<le> k \<and> k < int (length src)"
  shows "sampleInts src idxs = map (\<lambda>k. src ! nat k) idxs"
proof -
  obtain k where "k \<in> set idxs" using assms(1) by (cases idxs) auto
  then have "src \<noteq> []" using assms(2) [of k] by auto
  moreover have "filter (\<lambda>idx. 0 \<le> idx \<and> idx < int (length src)) idxs = idxs"
    using assms(2) by (simp add: filter_id_conv)
  ultimately show ?thesis using assms(1) by (simp add: sampleInts_def)
qed

lemma sampleFloats_in_range:
  assumes "idxs \<noteq> []" "\<And>k. k \<in> set idxs \<Longrightarrow> 0 \<le> k \<and> k < int (length src)"
  shows "sampleFloats src idxs = map (\<lambda>k. src ! nat k) idxs"
proof -
  obtain k where "k \<in> set idxs" using assms(1) by (cases idxs) auto
  then have "src \<noteq> []" using assms(2) [of k] by auto
  moreover have "filter (\<lambda>idx. 0 \<le> idx \<and> idx < int (length src)) idxs = idxs"
    using assms(2) by (simp add: filter_id_conv)
  ultimately show ?thesis using assms(1) by (simp add: sampleFloats_def)
qed

lemma sampleIndices_nonempty:
  fixes N M :: int
  assumes "0 < M" "M < N"
  shows "sampleIndices N M \<noteq> []"
proof -
  have "sampleIndices_loop 0 N step \<noteq> []" if "0 < step" for step
    using that assms by (subst sampleIndices_loop.simps) simp
  then show ?thesis using assms by (auto simp: sampleIndices_def Let_def)
qed

lemma sampleInts_kept:
  assumes "0 < M" "M < int (length src)" "int (length src) < 2 ^ 53"
  shows "sampleInts src (sampleIndices (int (length src)) M)
    = map (\<lambda>k. src ! nat k) (downsample_spec (int (length src)) M)"
  using sampleInts_in_range [OF sampleIndices_nonempty [OF assms(1,2)] sampleIndices_in_range [OF assms]]
  by (simp add: sampleIndices_large(1) [OF assms])

lemma sampleFloats_kept:
  assumes "0 < M" "M < int (length fs)" "int (length fs) < 2 ^ 53"
  shows "sampleFloats fs (sampleIndices (int (length fs)) M)
    = map (\<lambda>k. fs ! nat k) (downsample_spec (int (length fs)) M)"
  using sampleFloats_in_range [OF sampleIndices_nonempty [OF assms(1,2)] sampleIndices_in_range [OF assms]]
  by (simp add: sampleIndices_large(1) [OF assms])

lemma length_downsampleResults: "length (downsampleResults results M) = length results"
  by (simp add: downsampleResults_def)

lemma downsampleResults_nth:
  assumes "0 < M" "i < length results"
  shows "downsampleResults results M ! i =
     (let r = results ! i
      in if length (SeriesSec r) = 0 \<or> int (length (SeriesSec r)) \<le> M then r
         else
           let idxs = sampleIndices (int (length (SeriesSec r))) M
           in r\<lparr>SeriesSec := sampleInts (SeriesSec r) idxs,
                SeriesRPS := sampleFloats (SeriesRPS r) idxs,
                SeriesErr := sampleFloats (SeriesErr r) idxs,
                SeriesP50 := sampleFloats (SeriesP50 r) idxs,
                SeriesP90 := sampleFloats (SeriesP90 r) idxs,
                SeriesP95 := sampleFloats (SeriesP95 r) idxs,
                SeriesP99 := sampleFloats (SeriesP99 r) idxs\<rparr>)"
proof -
  have "results \<noteq> []" using assms(2) by auto
  then show ?thesis using assms by (simp add: downsampleResults_def Let_def)
qed

lemma downsampleResults_kept:
  assumes "0 < M" "i < length results"
    and "M < int (length (SeriesSec (results ! i)))" "int (length (SeriesSec (results ! i))) < 2 ^ 53"
  shows "downsampleResults results M ! i =
     (let r = results ! i;
          kept = downsample_spec (int (length (SeriesSec r))) M
      in r\<lparr>SeriesSec := map (\<lambda>k. SeriesSec r ! nat k) kept,
           SeriesRPS := sampleFloats (SeriesRPS r) kept,
           SeriesErr := sampleFloats (SeriesErr r) kept,
           SeriesP50 := sampleFloats (SeriesP50 r) kept,
           SeriesP90 := sampleFloats (SeriesP90 r) kept,
           SeriesP95 := sampleFloats (SeriesP95 r) kept,
           SeriesP99 := sampleFloats (SeriesP99 r) kept\<rparr>)"
proof -
  define r where "r = results ! i"
  have ne: "length (SeriesSec r) \<noteq> 0" "\<not> int (length (SeriesSec r)) \<le> M"
    using assms(1,3) by (auto simp: r_def)
  have k: "sampleIndices (int (length (SeriesSec r))) M = downsample_spec (int (length (SeriesSec r))) M"
    using sampleIndices_large(1) [OF assms(1,3,4)] by (simp add: r_def)
  have s: "sampleInts (SeriesSec r) (downsample_spec (int (length (SeriesSec r))) M)
      = map (\<lambda>k. SeriesSec r ! nat k) (downsample_spec (int (length (SeriesSec r))) M)"
    using sampleInts_kept [OF assms(1,3,4)] by (simp add: r_def k [unfolded r_def])
  show ?thesis
    unfolding downsampleResults_nth [OF assms(1,2)] r_def [symmetric] Let_def
    using ne by (simp add: k s)
qed

lemma downsampleResults_small_nth:
  assumes "0 < M" "i < length results" "int (length (SeriesSec (results ! i))) \<le> M"
  shows "downsampleResults results M ! i = results ! i"
  unfolding downsampleResults_nth [OF assms(1,2)] using assms(3) by (simp add: Let_def)

text \<open>
  C6. For a series of length N and a budget M with N > M > 0 (N below 2^53, as every slice
  length is), sampleIndices keeps the indices 0, step, 2*step, ... below N with
  step = ceil(N/M), and N-1 if it is not among them: the list starts at 0, ends at N-1, is
  strictly increasing and has at most M+1 elements. downsampleResults replaces the series
  of such a result by their values at exactly these indices, in this order, and leaves its
  other fields as they are. For N <= M, or M <= 0, all indices are kept and
  downsampleResults returns the series unchanged.
\<close>

theorem sampleIndices_downsample:
  "(0 < M \<and> M < N \<and> N < 2 ^ 53 \<longrightarrow>
      sampleIndices N M = downsample_spec N M
      \<and> hd (sampleIndices N M) = 0 \<and> last (sampleIndices N M) = N - 1
      \<and> sorted_wrt (<) (sampleIndices N M)
      \<and> int (length (sampleIndices N M)) \<le> M + 1)
   \<and> (0 \<le> N \<and> (N \<le> M \<or> M \<le> 0) \<longrightarrow> sampleIndices N M = map int [0..<nat N])
   \<and> (int (length src) \<le> M \<or> M \<le> 0 \<longrightarrow>
        sampleInts src (sampleIndices (int (length src)) M) = src)
   \<and> (M \<le> 0 \<or> list_all (\<lambda>r. int (length (SeriesSec r)) \<le> M) results \<longrightarrow>
        downsampleResults results M = results)
   \<and> length (downsampleResults results M) = length results
   \<and> (0 < M \<and> i < length results \<and> int (length (SeriesSec (results ! i))) \<le> M \<longrightarrow>
        downsampleResults results M ! i = results ! i)
   \<and> (0 < M \<and> i < length results \<and> M < int (length (SeriesSec (results ! i)))
        \<and> int (length (SeriesSec (results ! i))) < 2 ^ 53 \<longrightarrow>
        downsampleResults results M ! i =
          (let r = results ! i;
               kept = downsample_spec (int (length (SeriesSec r))) M
           in r\<lparr>SeriesSec := map (\<lambda>k. SeriesSec r ! nat k) kept,
                SeriesRPS := sampleFloats (SeriesRPS r) kept,
                SeriesErr := sampleFloats (SeriesErr r) kept,
                SeriesP50 := sampleFloats (SeriesP50 r) kept,
                SeriesP90 := sampleFloats (SeriesP90 r) kept,
                SeriesP95 := sampleFloats (SeriesP95 r) kept,
                SeriesP99 := sampleFloats (SeriesP99 r) kept\<rparr>))
   \<and> (0 < M \<and> M < int (length fs) \<and> int (length fs) < 2 ^ 53 \<longrightarrow>
        sampleFloats fs (downsample_spec (int (length fs)) M)
          = map (\<lambda>k. fs ! nat k) (downsample_spec (int (length fs)) M))"
proof -
  have 1: "sampleIndices N M = downsample_spec N M
      \<and> hd (sampleIndices N M) = 0 \<and> last (sampleIndices N M) = N - 1
      \<and> sorted_wrt (<) (sampleIndices N M)
      \<and> int (length (sampleIndices N M)) \<le> M + 1"
    if "0 < M \<and> M < N \<and> N < 2 ^ 53"
    using sampleIndices_large [of M N] that by simp
  have 2: "sampleIndices N M = map int [0..<nat N]" if "0 \<le> N \<and> (N \<le> M \<or> M \<le> 0)"
    using sampleIndices_small [of N M] that by simp
  have 3: "sampleInts src (sampleIndices (int (length src)) M) = src"
    if "int (length src) \<le> M \<or> M \<le> 0"
    using sampleIndices_small [of "int (length src)" M] that by (simp add: sampleInts_identity)
  have 4: "downsampleResults results M = results"
    if "M \<le> 0 \<or> list_all (\<lambda>r. int (length (SeriesSec r)) \<le> M) results"
    using that by (rule downsampleResults_unchanged)
  note 5 = length_downsampleResults [of results M]
  have 6: "downsampleResults results M ! i = results ! i"
    if "0 < M \<and> i < length results \<and> int (length (SeriesSec (results ! i))) \<le> M"
    using downsampleResults_small_nth [of M i results] that by simp
  have 7: "downsampleResults results M ! i =
      (let r = results ! i;
           kept = downsample_spec (int (length (SeriesSec r))) M
       in r\<lparr>SeriesSec := map (\<lambda>k. SeriesSec r ! nat k) kept,
            SeriesRPS := sampleFloats (SeriesRPS r) kept,
            SeriesErr := sampleFloats (SeriesErr r) kept,
            SeriesP50 := sampleFloats (SeriesP50 r) kept,
            SeriesP90 := sampleFloats (SeriesP90 r) kept,
            SeriesP95 := sampleFloats (SeriesP95 r) kept,
            SeriesP99 := sampleFloats (SeriesP99 r) kept\<rparr>)"
    if "0 < M \<and> i < length results \<and> M < int (length (SeriesSec (results ! i)))
        \<and> int (length (SeriesSec (results ! i))) < 2 ^ 53"
    using downsampleResults_kept [of M i results] that by blast
  have 8: "sampleFloats fs (downsample_spec (int (length fs)) M)
      = map (\<lambda>k. fs ! nat k) (downsample_spec (int (length fs)) M)"
    if h: "0 < M \<and> M < int (length fs) \<and> int (length fs) < 2 ^ 53"
  proof -
    have "sampleIndices (int (length fs)) M = downsample_spec (int (length fs)) M"
      using sampleIndices_large(1) [of M "int (length fs)"] h by blast
    then show ?thesis using sampleFloats_kept [of M fs] h by simp
  qed
  show ?thesis
    apply (intro conjI impI)
    subgoal using 1 by blast
    subgoal using 1 by blast
    subgoal using 1 by blast
    subgoal using 1 by blast
    subgoal using 1 by blast
    subgoal using 2 by blast
    subgoal using 3 by blast
    subgoal using 4 by blast
    subgoal by (rule 5)
    subgoal using 6 by blast
    subgoal using 7 by blast
    subgoal using 8 by blast
    done
qed

theorem sampleIndices_downsample_witness:
  "sampleIndices 10 3 = [0, 4, 8, 9]
   \<and> hd (sampleIndices 1000 100) = 0 \<and> last (sampleIndices 1000 100) = 999
   \<and> int (length (sampleIndices 1000 100)) \<le> 101
   \<and> sampleIndices 3 10 = [0, 1, 2]
   \<and> downsampleResults [result_10s] 10 = [result_10s]
   \<and> downsampleResults [result_10s] 0 = [result_10s]
   \<and> downsampleResults [result_10s] 10 ! 0 = result_10s
   \<and> length (downsampleResults [result_10s] 3) = 1
   \<and> downsampleResults [result_10s] 3 ! 0
       = result_10s\<lparr>SeriesSec := [1, 5, 9, 10], SeriesRPS := [10, 50, 90, 100]\<rparr>
   \<and> sampleFloats [10, 20, 30, 40, 50, 60, 70, 80, 90, 100] [0, 4, 8, 9] = [10, 50, 90, 100]"
proof -
  note T = sampleIndices_downsample
  have "sampleIndices 10 3 = [0, 4, 8, 9]"
    using T [of 3 10 "[]" "[]" 0 "[]", THEN conjunct1]
    by (simp add: downsample_spec_10_3)
  moreover have "hd (sampleIndices 1000 100) = 0 \<and> last (sampleIndices 1000 100) = 999
      \<and> int (length (sampleIndices 1000 100)) \<le> 101"
  proof -
    have p: "(0 :: int) < 100 \<and> (100 :: int) < 1000 \<and> (1000 :: int) < 2 ^ 53" by simp
    note t = T [of 100 1000 "[]" "[]" 0 "[]", THEN conjunct1, rule_format, OF p]
    have "int (length (sampleIndices 1000 100)) \<le> 100 + 1" using t by blast
    then have "int (length (sampleIndices 1000 100)) \<le> 101" by simp
    moreover have "hd (sampleIndices 1000 100) = 0" using t by blast
    moreover have "last (sampleIndices 1000 100) = 1000 - 1" using t by blast
    ultimately show ?thesis by simp
  qed
  moreover have "sampleIndices 3 10 = [0, 1, 2]"
    using T [of 10 3 "[]" "[]" 0 "[]", THEN conjunct2, THEN conjunct1]
    by (simp add: numeral_3_eq_3)
  moreover have "downsampleResults [result_10s] 10 = [result_10s]"
    using T [of 10 0 "[]" "[result_10s]" 0 "[]", THEN conjunct2, THEN conjunct2, THEN conjunct2,
        THEN conjunct1]
    by (simp add: result_10s_def)
  moreover have "downsampleResults [result_10s] 0 = [result_10s]"
    using T [of 0 0 "[]" "[result_10s]" 0 "[]", THEN conjunct2, THEN conjunct2, THEN conjunct2,
        THEN conjunct1]
    by simp
  moreover have "downsampleResults [result_10s] 10 ! 0 = result_10s"
    using T [of 10 0 "[]" "[result_10s]" 0 "[]", THEN conjunct2, THEN conjunct2, THEN conjunct2,
        THEN conjunct2, THEN conjunct2, THEN conjunct1]
    by (simp add: result_10s_def)
  moreover have "length (downsampleResults [result_10s] 3) = 1"
    using T [of 3 0 "[]" "[result_10s]" 0 "[]", THEN conjunct2, THEN conjunct2, THEN conjunct2,
        THEN conjunct2, THEN conjunct1]
    by simp
  moreover have "downsampleResults [result_10s] 3 ! 0
      = result_10s\<lparr>SeriesSec := [1, 5, 9, 10], SeriesRPS := [10, 50, 90, 100]\<rparr>"
  proof -
    have p: "(0 :: int) < 3 \<and> (0 :: nat) < length [result_10s]
        \<and> 3 < int (length (SeriesSec ([result_10s] ! 0)))
        \<and> int (length (SeriesSec ([result_10s] ! 0))) < 2 ^ 53"
      by (simp add: result_10s_def)
    note t = T [of 3 0 "[]" "[result_10s]" 0 "[]", THEN conjunct2, THEN conjunct2, THEN conjunct2,
        THEN conjunct2, THEN conjunct2, THEN conjunct2, THEN conjunct1, THEN mp, OF p]
    have l: "int (length (SeriesSec result_10s)) = 10" by (simp add: result_10s_def)
    show ?thesis
      unfolding t by (simp add: Let_def l downsample_spec_10_3) (simp add: result_10s_def sampleFloats_def Result_zero_def)
  qed
  moreover have "sampleFloats [10, 20, 30, 40, 50, 60, 70, 80, 90, 100] [0, 4, 8, 9] = [10, 50, 90, 100]"
  proof -
    have p: "(0 :: int) < 3 \<and> 3 < int (length [10, 20, 30, 40, 50, 60, 70, 80, 90, 100 :: real])
        \<and> int (length [10, 20, 30, 40, 50, 60, 70, 80, 90, 100 :: real]) < 2 ^ 53"
      by simp
    note t = T [of 3 0 "[]" "[]" 0 "[10, 20, 30, 40, 50, 60, 70, 80, 90, 100]", THEN conjunct2,
        THEN conjunct2, THEN conjunct2, THEN conjunct2, THEN conjunct2, THEN conjunct2,
        THEN conjunct2, THEN mp, OF p]
    have l: "int (length [10, 20, 30, 40, 50, 60, 70, 80, 90, 100 :: real]) = 10" by simp
    show ?thesis using t unfolding l downsample_spec_10_3 by simp
  qed
  ultimately show ?thesis by simp
qed
end
